theory Spec2Isabelle
  imports Main "HOL-Library.Word" "HOL-Library.Multiset"
begin

section \<open>The engine values seen through the embedding API\<close>

text \<open>
  The bridge (\<^verbatim>\<open>mini_v8/ffi.cc\<close>) never computes on numbers: it only moves a
  \<^verbatim>\<open>double\<close> between the engine and a descriptor. A \<^verbatim>\<open>double\<close> is therefore
  modelled by the one distinction the source makes (\<^verbatim>\<open>IsInt32\<close>): it is either exactly a
  32-bit signed integer other than minus zero (the two's complement word), or another double, identified by
  its IEEE bit pattern. The widening \<^verbatim>\<open>(double)int32\<close> is exact.
\<close>

datatype double = Int32Double "32 word" | OtherDouble "64 word"

text \<open>
  Engine values, \<^verbatim>\<open>v8::Local<v8::Value>\<close>. Heap values carry their identity (a heap
  address); a date object carries in addition its current time value. \<open>JsObject\<close>
  stands for every object that is no date, array or function. Symbols and big
  integers are the engine values that answer none of the tests made by
  \<^verbatim>\<open>value_to_desc\<close>.
\<close>

datatype jsval =
    JsUndefined
  | JsNull
  | JsBoolean bool
  | JsNumber double
  | JsString nat
  | JsSymbol nat
  | JsBigInt nat
  | JsDate nat double
  | JsArray nat
  | JsFunction nat
  | JsObject nat

fun IsUndefined :: "jsval \<Rightarrow> bool" where
  "IsUndefined JsUndefined = True"
| "IsUndefined _ = False"

fun IsNull :: "jsval \<Rightarrow> bool" where
  "IsNull JsNull = True"
| "IsNull _ = False"

fun IsTrue :: "jsval \<Rightarrow> bool" where
  "IsTrue (JsBoolean b) = b"
| "IsTrue _ = False"

fun IsFalse :: "jsval \<Rightarrow> bool" where
  "IsFalse (JsBoolean b) = (\<not> b)"
| "IsFalse _ = False"

fun IsInt32 :: "jsval \<Rightarrow> bool" where
  "IsInt32 (JsNumber (Int32Double i)) = True"
| "IsInt32 _ = False"

fun IsNumber :: "jsval \<Rightarrow> bool" where
  "IsNumber (JsNumber d) = True"
| "IsNumber _ = False"

fun IsDate :: "jsval \<Rightarrow> bool" where
  "IsDate (JsDate a t) = True"
| "IsDate _ = False"

fun IsString :: "jsval \<Rightarrow> bool" where
  "IsString (JsString a) = True"
| "IsString _ = False"

fun IsArray :: "jsval \<Rightarrow> bool" where
  "IsArray (JsArray a) = True"
| "IsArray _ = False"

fun IsFunction :: "jsval \<Rightarrow> bool" where
  "IsFunction (JsFunction a) = True"
| "IsFunction _ = False"

text \<open>Every array, function and date is an object as well: the order of the tests matters.\<close>

fun IsObject :: "jsval \<Rightarrow> bool" where
  "IsObject (JsDate a t) = True"
| "IsObject (JsArray a) = True"
| "IsObject (JsFunction a) = True"
| "IsObject (JsObject a) = True"
| "IsObject _ = False"

text \<open>
  \<^verbatim>\<open>Int32Value\<close> and \<^verbatim>\<open>NumberValue\<close> return a \<^verbatim>\<open>Maybe\<close>, on which the source calls
  \<^verbatim>\<open>ToChecked()\<close>: \<open>None\<close> is the empty \<^verbatim>\<open>Maybe\<close>, on which \<^verbatim>\<open>ToChecked\<close> aborts.
  On a value that is not a number the engine would run a conversion that may throw;
  the bridge never asks for it.
\<close>

fun Int32Value :: "jsval \<Rightarrow> 32 word option" where
  "Int32Value (JsNumber (Int32Double i)) = Some i"
| "Int32Value _ = None"

fun NumberValue :: "jsval \<Rightarrow> double option" where
  "NumberValue (JsNumber d) = Some d"
| "NumberValue _ = None"

text \<open>\<^verbatim>\<open>v8::Local<v8::Date>::Cast(value)->ValueOf()\<close>; the cast is unchecked.\<close>

fun ValueOf :: "jsval \<Rightarrow> double option" where
  "ValueOf (JsDate a t) = Some t"
| "ValueOf _ = None"

section \<open>Descriptors: \<^verbatim>\<open>ValueDesc\<close> and \<^verbatim>\<open>TryCatchDesc\<close>\<close>

datatype ValueDescTag =
  Null | Undefined | Number | Boolean | Array | Function | Date | Object | String

text \<open>The enumerators are numbered from 0 in declaration order; the struct stores a byte.\<close>

fun tag_value :: "ValueDescTag \<Rightarrow> 8 word" where
  "tag_value Null = 0"
| "tag_value Undefined = 1"
| "tag_value Number = 2"
| "tag_value Boolean = 3"
| "tag_value Array = 4"
| "tag_value Function = 5"
| "tag_value Date = 6"
| "tag_value Object = 7"
| "tag_value String = 8"

text \<open>
  The payload is a C union. The model records which member was written last; reading
  another member is a read of unrelated bytes and is undefined in the model.
  A \<^verbatim>\<open>v8::Persistent<v8::Value>*\<close> is the address of the persistent handle.
\<close>

datatype ValueDescPayload =
    payload_byte "8 word"
  | payload_number double
  | payload_value_ptr nat

record ValueDesc =
  payload :: ValueDescPayload
  tag :: "8 word"

record TryCatchDesc =
  value_desc :: ValueDesc
  is_exception :: "8 word"

section \<open>The state: persistent handles, callback records, engine bookkeeping\<close>

text \<open>
  A live persistent handle: the value it refers to, its wrapper class id (0 when none
  was set) and, when it was made weak, the parameter handed to the weak callback.
\<close>

record Persistent =
  referent :: jsval
  class_id :: "16 word"
  weak_parameter :: "nat option"

text \<open>\<^verbatim>\<open>struct RustCallback\<close>; pointers are addresses.\<close>

record RustCallback =
  func :: nat
  func_size :: "32 word"
  interface :: nat
  value_ptr :: nat

text \<open>
  Contents of the engine heap that the bridge itself creates or reads:
  strings made by \<^verbatim>\<open>string_new\<close>, error objects made by \<^verbatim>\<open>v8::Exception::Error\<close> (with
  the address of their message string), and function objects made from the
  callback template (with the address wrapped by their \<^verbatim>\<open>v8::External\<close> data).
\<close>

datatype heap_cell =
    StringCell string
  | ErrorCell nat
  | CallbackFunctionCell nat

text \<open>
  Addresses are never reused, so that a handle or record address identifies one
  allocation: \<open>next_handle\<close> counts the persistent handles ever created, \<open>released\<close>
  logs every \<^verbatim>\<open>Reset(); delete\<close> of one.
  \<open>finalized\<close> logs the records on which \<^verbatim>\<open>callback_drop_inner\<close> ran, \<open>drop_calls\<close> the
  arguments of the calls of \<^verbatim>\<open>main_callback_drop_func\<close>, \<open>wrapper_calls\<close> those of
  \<^verbatim>\<open>main_callback_wrapper_func\<close>, \<open>cout\<close> the lines printed. \<open>private_slot\<close> is the
  value stored in a function object under the private symbol \<^verbatim>\<open>priv_rust_callback\<close>,
  \<open>external_memory\<close> the counter behind \<^verbatim>\<open>AdjustAmountOfExternalAllocatedMemory\<close>, and
  \<open>disposed\<close> tells whether \<^verbatim>\<open>isolate->Dispose()\<close> ran.
\<close>

record state =
  handles :: "nat \<Rightarrow> Persistent option"
  next_handle :: nat
  released :: "nat list"
  callbacks :: "nat \<Rightarrow> RustCallback option"
  next_callback :: nat
  finalized :: "nat list"
  drop_calls :: "nat list"
  wrapper_calls :: "(nat \<times> nat \<times> ValueDesc \<times> ValueDesc list) list"
  heap :: "nat \<Rightarrow> heap_cell option"
  private_slot :: "nat \<Rightarrow> nat option"
  next_object :: nat
  external_memory :: "64 word"
  cout :: "string list"
  disposed :: bool

text \<open>\<^verbatim>\<open>new v8::Persistent<v8::Value>(isolate, value)\<close>: a fresh strong handle.\<close>

definition new_Persistent :: "state \<Rightarrow> jsval \<Rightarrow> nat \<times> state" where
  "new_Persistent s v =
     (next_handle s,
      s\<lparr>handles := (handles s)(next_handle s \<mapsto>
            \<lparr>referent = v, class_id = 0, weak_parameter = None\<rparr>),
        next_handle := Suc (next_handle s)\<rparr>)"

text \<open>
  \<^verbatim>\<open>p->Reset(); delete p;\<close> The two statements are adjacent at every place of the source.
  On an address that holds no live handle this is a use after free: \<open>None\<close>.
\<close>

definition Reset_delete :: "state \<Rightarrow> nat \<Rightarrow> state option" where
  "Reset_delete s p =
     (case handles s p of
        None \<Rightarrow> None
      | Some h \<Rightarrow> Some (s\<lparr>handles := (handles s)(p := None), released := released s @ [p]\<rparr>))"

section \<open>\<^verbatim>\<open>value_to_desc\<close> and \<^verbatim>\<open>desc_to_value\<close>\<close>

definition double_of_int32 :: "32 word \<Rightarrow> double" where
  "double_of_int32 i = Int32Double i"

text \<open>The common tail of the four reference branches (lines 148 and 149).\<close>

definition reference_desc :: "state \<Rightarrow> ValueDescTag \<Rightarrow> jsval \<Rightarrow> ValueDesc \<times> state" where
  "reference_desc s t v =
     (case new_Persistent s v of
        (p, s') \<Rightarrow> (\<lparr>payload = payload_value_ptr p, tag = tag_value t\<rparr>, s'))"

definition value_to_desc :: "state \<Rightarrow> jsval \<Rightarrow> (ValueDesc \<times> state) option" where
  "value_to_desc s v =
     (let desc = \<lparr>payload = payload_byte 0, tag = tag_value Undefined\<rparr> in
      if IsUndefined v then Some (desc, s)
      else if IsNull v then Some (desc\<lparr>tag := tag_value Null\<rparr>, s)
      else if IsTrue v then
        Some (desc\<lparr>tag := tag_value Boolean, payload := payload_byte 1\<rparr>, s)
      else if IsFalse v then Some (desc\<lparr>tag := tag_value Boolean\<rparr>, s)
      else if IsInt32 v then
        (case Int32Value v of
           None \<Rightarrow> None
         | Some i \<Rightarrow>
             Some (desc\<lparr>tag := tag_value Number,
                        payload := payload_number (double_of_int32 i)\<rparr>, s))
      else if IsNumber v then
        (case NumberValue v of
           None \<Rightarrow> None
         | Some d \<Rightarrow> Some (desc\<lparr>tag := tag_value Number, payload := payload_number d\<rparr>, s))
      else if IsDate v then
        (case ValueOf v of
           None \<Rightarrow> None
         | Some t \<Rightarrow> Some (desc\<lparr>tag := tag_value Date, payload := payload_number t\<rparr>, s))
      else if IsString v then Some (reference_desc s String v)
      else if IsArray v then Some (reference_desc s Array v)
      else if IsFunction v then Some (reference_desc s Function v)
      else if IsObject v then Some (reference_desc s Object v)
      else Some (desc, s))"

text \<open>
  \<^verbatim>\<open>v8::Date::New(context, t)\<close> allocates a date object. (The engine clips the time
  value; the time value of an existing date is already clipped.)
\<close>

definition Date_New :: "state \<Rightarrow> double \<Rightarrow> jsval \<times> state" where
  "Date_New s t = (JsDate (next_object s) t, s\<lparr>next_object := Suc (next_object s)\<rparr>)"

definition is_reference_tag :: "8 word \<Rightarrow> bool" where
  "is_reference_tag t \<longleftrightarrow>
     t = tag_value Array \<or> t = tag_value Function \<or> t = tag_value Object \<or> t = tag_value String"

text \<open>
  \<open>None\<close>: the descriptor's payload does not hold the member that its tag makes the
  source read, or its handle is not live (the source then reads freed memory).
\<close>

definition desc_to_value :: "state \<Rightarrow> ValueDesc \<Rightarrow> (jsval \<times> state) option" where
  "desc_to_value s desc =
     (if tag desc = tag_value Null then Some (JsNull, s)
      else if tag desc = tag_value Number then
        (case payload desc of
           payload_number d \<Rightarrow> Some (JsNumber d, s)
         | _ \<Rightarrow> None)
      else if tag desc = tag_value Boolean then
        (case payload desc of
           payload_byte b \<Rightarrow> Some (if b \<noteq> 0 then JsBoolean True else JsBoolean False, s)
         | _ \<Rightarrow> None)
      else if tag desc = tag_value Date then
        (case payload desc of
           payload_number t \<Rightarrow> Some (Date_New s t)
         | _ \<Rightarrow> None)
      else if is_reference_tag (tag desc) then
        (case payload desc of
           payload_value_ptr p \<Rightarrow>
             (case handles s p of
                None \<Rightarrow> None
              | Some h \<Rightarrow>
                  (case Reset_delete s p of
                     None \<Rightarrow> None
                   | Some s' \<Rightarrow> Some (referent h, s')))
         | _ \<Rightarrow> None)
      else Some (JsUndefined, s))"

section \<open>The exception channel\<close>

text \<open>
  What the bridge reads from a \<^verbatim>\<open>v8::TryCatch\<close> that has caught: the exception, whether
  execution was terminated, and the two handles used for the diagnostic output, each
  of which the engine may leave empty (\<open>None\<close>), rendered as text.
\<close>

record TryCatch =
  Exception :: jsval
  HasTerminated :: bool
  StackTrace :: "string option"
  Message :: "string option"

text \<open>
  The outcome of a call into the engine made under a \<^verbatim>\<open>v8::TryCatch\<close>: either the call
  completed with a value, or the result is empty and the \<^verbatim>\<open>TryCatch\<close> has caught.
  The source tests either \<^verbatim>\<open>IsEmpty()\<close> on the result or \<^verbatim>\<open>HasCaught()\<close>; both are the
  second case.
\<close>

datatype 'a completion = Completed 'a | Caught TryCatch

text \<open>
  \<^verbatim>\<open>string_new(isolate, data, length)\<close>: an engine string of the first \<open>length\<close> bytes
  of a buffer that holds at least as many.
\<close>

definition string_new :: "state \<Rightarrow> string \<Rightarrow> 32 word \<Rightarrow> jsval \<times> state" where
  "string_new s data len =
     (JsString (next_object s),
      s\<lparr>heap := (heap s)(next_object s \<mapsto> StringCell (take (unat len) data)),
        next_object := Suc (next_object s)\<rparr>)"

text \<open>\<^verbatim>\<open>v8::Exception::Error(message)\<close>: a new error object.\<close>

definition Exception_Error :: "state \<Rightarrow> jsval \<Rightarrow> jsval \<times> state" where
  "Exception_Error s message =
     (JsObject (next_object s),
      s\<lparr>heap := (heap s)(next_object s \<mapsto>
            (case message of JsString a \<Rightarrow> ErrorCell a | _ \<Rightarrow> ErrorCell 0)),
        next_object := Suc (next_object s)\<rparr>)"

definition EXECUTION_TIMEOUT_MESSAGE :: string where
  "EXECUTION_TIMEOUT_MESSAGE = ''execution timed out''"

text \<open>
  Lines 215 to 225 of \<^verbatim>\<open>try_catch_err\<close>. With an empty stack trace the source calls
  \<^verbatim>\<open>try_catch->Message()->Get()\<close> without testing the handle: on an empty message this
  dereferences a null pointer (\<open>None\<close>).
\<close>

definition print_diagnostics :: "state \<Rightarrow> TryCatch \<Rightarrow> state option" where
  "print_diagnostics s try_catch =
     (case StackTrace try_catch of
        None \<Rightarrow>
          (case Message try_catch of
             None \<Rightarrow> None
           | Some msg \<Rightarrow> Some (s\<lparr>cout := cout s @ [''CC trace empty'', ''CC err msg: '' @ msg]\<rparr>))
      | Some trace \<Rightarrow> Some (s\<lparr>cout := cout s @ [''CC trace: '' @ trace]\<rparr>))"

definition try_catch_err :: "state \<Rightarrow> TryCatch \<Rightarrow> (TryCatchDesc \<times> state) option" where
  "try_catch_err s try_catch =
     (case print_diagnostics s try_catch of
        None \<Rightarrow> None
      | Some s1 \<Rightarrow>
          (case (if HasTerminated try_catch
                 then (case string_new s1 EXECUTION_TIMEOUT_MESSAGE
                              (word_of_nat (length EXECUTION_TIMEOUT_MESSAGE + 1) - 1) of
                         (message, s2) \<Rightarrow> Exception_Error s2 message)
                 else (Exception try_catch, s1)) of
             (value, s3) \<Rightarrow>
               (case value_to_desc s3 value of
                  None \<Rightarrow> None
                | Some (desc, s4) \<Rightarrow> Some (\<lparr>value_desc = desc, is_exception = 1\<rparr>, s4))))"

definition try_catch_ok :: "state \<Rightarrow> jsval \<Rightarrow> (TryCatchDesc \<times> state) option" where
  "try_catch_ok s value =
     (case value_to_desc s value of
        None \<Rightarrow> None
      | Some (desc, s') \<Rightarrow> Some (\<lparr>value_desc = desc, is_exception = 0\<rparr>, s'))"

definition try_catch_ok_noval :: TryCatchDesc where
  "try_catch_ok_noval =
     \<lparr>value_desc = \<lparr>payload = payload_byte 0, tag = tag_value Undefined\<rparr>, is_exception = 0\<rparr>"

definition try_catch_ok_val :: "ValueDesc \<Rightarrow> TryCatchDesc" where
  "try_catch_ok_val desc = \<lparr>value_desc = desc, is_exception = 0\<rparr>"

section \<open>The engine\<close>

text \<open>
  The engine's own semantics (property access, coercion, calls, script execution) is
  not part of the bridge. Each engine entry point that the exported functions call is
  a parameter, which gives the completion of the call from its arguments; the theorems
  hold for every engine.
\<close>

record engine =
  Object_Get :: "jsval \<Rightarrow> jsval \<Rightarrow> jsval completion"
  Object_Get_index :: "jsval \<Rightarrow> 32 word \<Rightarrow> jsval completion"
  Object_Set :: "jsval \<Rightarrow> jsval \<Rightarrow> jsval \<Rightarrow> bool completion"
  Object_Set_index :: "jsval \<Rightarrow> 32 word \<Rightarrow> jsval \<Rightarrow> bool completion"
  Object_Delete :: "jsval \<Rightarrow> jsval \<Rightarrow> bool completion"
  Object_Has :: "jsval \<Rightarrow> jsval \<Rightarrow> bool completion"
  Object_GetPropertyNames :: "jsval \<Rightarrow> jsval completion"
  Object_GetOwnPropertyNames :: "jsval \<Rightarrow> jsval completion"
  Value_BooleanValue :: "jsval \<Rightarrow> bool"
  Value_ToNumber :: "jsval \<Rightarrow> double completion"
  Value_ToString :: "jsval \<Rightarrow> jsval completion"
  Function_Call :: "jsval \<Rightarrow> jsval \<Rightarrow> jsval list \<Rightarrow> jsval completion"
  Function_NewInstance :: "jsval \<Rightarrow> jsval list \<Rightarrow> jsval completion"
  Script_Compile_Run :: "string \<Rightarrow> (string \<times> 32 word \<times> 32 word) option \<Rightarrow> jsval completion"

text \<open>\<^verbatim>\<open>handle->Get(isolate)\<close> on a handle held by the host; \<open>None\<close> on a freed handle.\<close>

definition Persistent_Get :: "state \<Rightarrow> nat \<Rightarrow> jsval option" where
  "Persistent_Get s p = map_option referent (handles s p)"

section \<open>The exported operations on values\<close>

definition mv8_interface_eval ::
  "engine \<Rightarrow> state \<Rightarrow> string \<Rightarrow> 32 word \<Rightarrow> (string \<times> 32 word) option \<Rightarrow> 32 word \<Rightarrow> 32 word
     \<Rightarrow> (TryCatchDesc \<times> state) option" where
  "mv8_interface_eval E s source_data source_length name line_offset column_offset =
     (case string_new s source_data source_length of
        (source, s1) \<Rightarrow>
          (case (case name of
                   None \<Rightarrow> (None, s1)
                 | Some (name_data, name_length) \<Rightarrow>
                     (case string_new s1 name_data name_length of
                        (nm, s2) \<Rightarrow>
                          (Some (take (unat name_length) name_data, line_offset, column_offset),
                           s2))) of
             (origin, s3) \<Rightarrow>
               (case Script_Compile_Run E (take (unat source_length) source_data) origin of
                  Completed value \<Rightarrow> try_catch_ok s3 value
                | Caught try_catch \<Rightarrow> try_catch_err s3 try_catch)))"

definition mv8_value_ptr_clone :: "state \<Rightarrow> nat \<Rightarrow> (nat \<times> state) option" where
  "mv8_value_ptr_clone s value_ptr' =
     (case Persistent_Get s value_ptr' of
        None \<Rightarrow> None
      | Some v \<Rightarrow> Some (new_Persistent s v))"

definition mv8_value_ptr_drop :: "state \<Rightarrow> nat \<Rightarrow> state option" where
  "mv8_value_ptr_drop s value_ptr' = Reset_delete s value_ptr'"

definition mv8_array_get :: "engine \<Rightarrow> state \<Rightarrow> nat \<Rightarrow> 32 word \<Rightarrow> (TryCatchDesc \<times> state) option" where
  "mv8_array_get E s array index =
     (case Persistent_Get s array of
        None \<Rightarrow> None
      | Some local_object \<Rightarrow>
          (case Object_Get_index E local_object index of
             Caught try_catch \<Rightarrow> try_catch_err s try_catch
           | Completed value \<Rightarrow> try_catch_ok s value))"

definition mv8_array_set ::
  "engine \<Rightarrow> state \<Rightarrow> nat \<Rightarrow> 32 word \<Rightarrow> ValueDesc \<Rightarrow> (TryCatchDesc \<times> state) option" where
  "mv8_array_set E s array index value_desc' =
     (case Persistent_Get s array of
        None \<Rightarrow> None
      | Some local_object \<Rightarrow>
          (case desc_to_value s value_desc' of
             None \<Rightarrow> None
           | Some (value, s1) \<Rightarrow>
               (case Object_Set_index E local_object index value of
                  Caught try_catch \<Rightarrow> try_catch_err s1 try_catch
                | Completed b \<Rightarrow> Some (try_catch_ok_noval, s1))))"

definition mv8_object_get ::
  "engine \<Rightarrow> state \<Rightarrow> nat \<Rightarrow> ValueDesc \<Rightarrow> (TryCatchDesc \<times> state) option" where
  "mv8_object_get E s object key_desc =
     (case Persistent_Get s object of
        None \<Rightarrow> None
      | Some local_object \<Rightarrow>
          (case desc_to_value s key_desc of
             None \<Rightarrow> None
           | Some (key, s1) \<Rightarrow>
               (case Object_Get E local_object key of
                  Caught try_catch \<Rightarrow> try_catch_err s1 try_catch
                | Completed value \<Rightarrow> try_catch_ok s1 value)))"

definition mv8_object_set ::
  "engine \<Rightarrow> state \<Rightarrow> nat \<Rightarrow> ValueDesc \<Rightarrow> ValueDesc \<Rightarrow> (TryCatchDesc \<times> state) option" where
  "mv8_object_set E s object key_desc value_desc' =
     (case Persistent_Get s object of
        None \<Rightarrow> None
      | Some local_object \<Rightarrow>
          (case desc_to_value s key_desc of
             None \<Rightarrow> None
           | Some (key, s1) \<Rightarrow>
               (case desc_to_value s1 value_desc' of
                  None \<Rightarrow> None
                | Some (value, s2) \<Rightarrow>
                    (case Object_Set E local_object key value of
                       Caught try_catch \<Rightarrow> try_catch_err s2 try_catch
                     | Completed b \<Rightarrow> Some (try_catch_ok_noval, s2)))))"

definition mv8_object_remove ::
  "engine \<Rightarrow> state \<Rightarrow> nat \<Rightarrow> ValueDesc \<Rightarrow> (TryCatchDesc \<times> state) option" where
  "mv8_object_remove E s object key_desc =
     (case Persistent_Get s object of
        None \<Rightarrow> None
      | Some local_object \<Rightarrow>
          (case desc_to_value s key_desc of
             None \<Rightarrow> None
           | Some (key, s1) \<Rightarrow>
               (case Object_Delete E local_object key of
                  Caught try_catch \<Rightarrow> try_catch_err s1 try_catch
                | Completed b \<Rightarrow> Some (try_catch_ok_noval, s1))))"

definition mv8_object_has ::
  "engine \<Rightarrow> state \<Rightarrow> nat \<Rightarrow> ValueDesc \<Rightarrow> (TryCatchDesc \<times> state) option" where
  "mv8_object_has E s object key_desc =
     (case Persistent_Get s object of
        None \<Rightarrow> None
      | Some local_object \<Rightarrow>
          (case desc_to_value s key_desc of
             None \<Rightarrow> None
           | Some (key, s1) \<Rightarrow>
               (case Object_Has E local_object key of
                  Caught try_catch \<Rightarrow> try_catch_err s1 try_catch
                | Completed has \<Rightarrow>
                    Some (try_catch_ok_val
                            \<lparr>payload = payload_byte (if has then 1 else 0),
                             tag = tag_value Boolean\<rparr>, s1))))"

definition mv8_object_keys ::
  "engine \<Rightarrow> state \<Rightarrow> nat \<Rightarrow> 8 word \<Rightarrow> (TryCatchDesc \<times> state) option" where
  "mv8_object_keys E s object include_inherited =
     (case Persistent_Get s object of
        None \<Rightarrow> None
      | Some local_object \<Rightarrow>
          (case (if include_inherited \<noteq> 0
                 then Object_GetPropertyNames E local_object
                 else Object_GetOwnPropertyNames E local_object) of
             Caught try_catch \<Rightarrow> try_catch_err s try_catch
           | Completed keys \<Rightarrow>
               (case new_Persistent s keys of
                  (p, s1) \<Rightarrow>
                    Some (try_catch_ok_val
                            \<lparr>payload = payload_value_ptr p, tag = tag_value Array\<rparr>, s1))))"

definition mv8_coerce_boolean :: "engine \<Rightarrow> state \<Rightarrow> ValueDesc \<Rightarrow> (8 word \<times> state) option" where
  "mv8_coerce_boolean E s desc =
     (case desc_to_value s desc of
        None \<Rightarrow> None
      | Some (value, s1) \<Rightarrow> Some (if Value_BooleanValue E value then 1 else 0, s1))"

definition mv8_coerce_number ::
  "engine \<Rightarrow> state \<Rightarrow> ValueDesc \<Rightarrow> (TryCatchDesc \<times> state) option" where
  "mv8_coerce_number E s desc =
     (case desc_to_value s desc of
        None \<Rightarrow> None
      | Some (value, s1) \<Rightarrow>
          (case Value_ToNumber E value of
             Caught try_catch \<Rightarrow> try_catch_err s1 try_catch
           | Completed n \<Rightarrow>
               Some (try_catch_ok_val
                       \<lparr>payload = payload_number n, tag = tag_value Number\<rparr>, s1)))"

definition mv8_coerce_string ::
  "engine \<Rightarrow> state \<Rightarrow> ValueDesc \<Rightarrow> (TryCatchDesc \<times> state) option" where
  "mv8_coerce_string E s desc =
     (case desc_to_value s desc of
        None \<Rightarrow> None
      | Some (value, s1) \<Rightarrow>
          (case Value_ToString E value of
             Caught try_catch \<Rightarrow> try_catch_err s1 try_catch
           | Completed string \<Rightarrow>
               (case new_Persistent s1 string of
                  (p, s2) \<Rightarrow>
                    Some (try_catch_ok_val
                            \<lparr>payload = payload_value_ptr p, tag = tag_value String\<rparr>, s2))))"

text \<open>
  The loop \<^verbatim>\<open>for (int i = 0; i != args_len; i++) args[i] = desc_to_value(..., arg_descs[i])\<close>
  over the array \<^verbatim>\<open>arg_descs\<close> of length \<^verbatim>\<open>arg_descs_len\<close>, the array and its length being
  the list.
\<close>

fun desc_to_value_loop :: "state \<Rightarrow> ValueDesc list \<Rightarrow> (jsval list \<times> state) option" where
  "desc_to_value_loop s [] = Some ([], s)"
| "desc_to_value_loop s (desc # arg_descs) =
     (case desc_to_value s desc of
        None \<Rightarrow> None
      | Some (value, s1) \<Rightarrow>
          (case desc_to_value_loop s1 arg_descs of
             None \<Rightarrow> None
           | Some (args, s2) \<Rightarrow> Some (value # args, s2)))"

definition mv8_function_call ::
  "engine \<Rightarrow> state \<Rightarrow> nat \<Rightarrow> ValueDesc \<Rightarrow> ValueDesc list \<Rightarrow> (TryCatchDesc \<times> state) option" where
  "mv8_function_call E s func_value this_desc arg_descs =
     (case Persistent_Get s func_value of
        None \<Rightarrow> None
      | Some fn \<Rightarrow>
          (case desc_to_value s this_desc of
             None \<Rightarrow> None
           | Some (this_value, s1) \<Rightarrow>
               (case desc_to_value_loop s1 arg_descs of
                  None \<Rightarrow> None
                | Some (args, s2) \<Rightarrow>
                    (case Function_Call E fn this_value args of
                       Caught try_catch \<Rightarrow> try_catch_err s2 try_catch
                     | Completed value \<Rightarrow> try_catch_ok s2 value))))"

definition mv8_function_call_new ::
  "engine \<Rightarrow> state \<Rightarrow> nat \<Rightarrow> ValueDesc list \<Rightarrow> (TryCatchDesc \<times> state) option" where
  "mv8_function_call_new E s func_value arg_descs =
     (case Persistent_Get s func_value of
        None \<Rightarrow> None
      | Some fn \<Rightarrow>
          (case desc_to_value_loop s arg_descs of
             None \<Rightarrow> None
           | Some (args, s1) \<Rightarrow>
               (case Function_NewInstance E fn args of
                  Caught try_catch \<Rightarrow> try_catch_err s1 try_catch
                | Completed object \<Rightarrow>
                    (case new_Persistent s1 object of
                       (p, s2) \<Rightarrow>
                         Some (try_catch_ok_val
                                 \<lparr>payload = payload_value_ptr p, tag = tag_value Object\<rparr>,
                               s2)))))"

section \<open>Native callbacks\<close>

text \<open>
  The two process-wide function pointers, \<open>None\<close> for \<^verbatim>\<open>NULL\<close>. The call dispatcher is
  host code that receives the descriptors and may itself use the bridge, so it takes
  and returns the state. The drop dispatcher returns nothing and frees host memory
  only; each call of it is logged in \<open>drop_calls\<close>.
\<close>

type_synonym rust_callback_wrapper =
  "state \<Rightarrow> nat \<Rightarrow> nat \<Rightarrow> ValueDesc \<Rightarrow> ValueDesc list \<Rightarrow> TryCatchDesc \<times> state"

type_synonym rust_callback_drop = "nat \<Rightarrow> unit"

record globals =
  main_callback_wrapper_func :: "rust_callback_wrapper option"
  main_callback_drop_func :: "rust_callback_drop option"

definition mv8_init ::
  "rust_callback_wrapper option \<Rightarrow> rust_callback_drop option \<Rightarrow> globals" where
  "mv8_init wrapper_func drop_func =
     \<lparr>main_callback_wrapper_func = wrapper_func, main_callback_drop_func = drop_func\<rparr>"

text \<open>
  \<^verbatim>\<open>mv8_interface_new\<close>: a new isolate with no persistent value handle, no callback record
  and an empty heap. (The handles of the context and of the private symbol are not
  value handles and carry no class id; they are left out.)
\<close>

definition mv8_interface_new :: state where
  "mv8_interface_new =
     \<lparr>handles = (\<lambda>p. None), next_handle = 0, released = [],
      callbacks = (\<lambda>c. None), next_callback = 0, finalized = [], drop_calls = [],
      wrapper_calls = [], heap = (\<lambda>a. None), private_slot = (\<lambda>a. None), next_object = 0,
      external_memory = 0, cout = [], disposed = False\<rparr>"

text \<open>
  \<^verbatim>\<open>sizeof(RustCallback)\<close>: a pointer, a 32-bit size padded to eight bytes, and two
  pointers, on the 64-bit targets of the engine.
\<close>

definition sizeof_RustCallback :: nat where
  "sizeof_RustCallback = 32"

definition RUST_CALLBACK_CLASS_ID :: "16 word" where
  "RUST_CALLBACK_CLASS_ID = 1001"

text \<open>
  \<^verbatim>\<open>const auto size = sizeof(RustCallback) + func_size\<close>, a \<^verbatim>\<open>size_t\<close>: the 32-bit size
  is widened to 64 bits before the addition.
\<close>

definition callback_size :: "32 word \<Rightarrow> 64 word" where
  "callback_size fsz = word_of_nat sizeof_RustCallback + ucast fsz"

text \<open>
  \<^verbatim>\<open>AdjustAmountOfExternalAllocatedMemory(int64_t)\<close>; the \<^verbatim>\<open>size_t\<close> argument is
  converted to \<^verbatim>\<open>int64_t\<close>, which keeps the 64 bits.
\<close>

definition AdjustAmountOfExternalAllocatedMemory :: "state \<Rightarrow> 64 word \<Rightarrow> state" where
  "AdjustAmountOfExternalAllocatedMemory s change =
     s\<lparr>external_memory := external_memory s + change\<rparr>"

text \<open>Operations on a live handle; \<open>None\<close> on a freed one.\<close>

definition SetWrapperClassId :: "state \<Rightarrow> nat \<Rightarrow> 16 word \<Rightarrow> state option" where
  "SetWrapperClassId s p cid =
     (case handles s p of
        None \<Rightarrow> None
      | Some h \<Rightarrow> Some (s\<lparr>handles := (handles s)(p \<mapsto> h\<lparr>class_id := cid\<rparr>)\<rparr>))"

definition SetWeak :: "state \<Rightarrow> nat \<Rightarrow> nat \<Rightarrow> state option" where
  "SetWeak s p parameter =
     (case handles s p of
        None \<Rightarrow> None
      | Some h \<Rightarrow> Some (s\<lparr>handles := (handles s)(p \<mapsto> h\<lparr>weak_parameter := Some parameter\<rparr>)\<rparr>))"

definition ClearWeak :: "state \<Rightarrow> nat \<Rightarrow> state option" where
  "ClearWeak s p =
     (case handles s p of
        None \<Rightarrow> None
      | Some h \<Rightarrow> Some (s\<lparr>handles := (handles s)(p \<mapsto> h\<lparr>weak_parameter := None\<rparr>)\<rparr>))"

text \<open>
  \<^verbatim>\<open>object->GetPrivate(context, priv_rust_callback)\<close> followed by the unchecked cast to
  \<^verbatim>\<open>v8::External\<close> and \<^verbatim>\<open>ext->Value()\<close>: the address stored in the object, if any.
\<close>

fun GetPrivate :: "state \<Rightarrow> jsval \<Rightarrow> nat option" where
  "GetPrivate s (JsFunction a) = private_slot s a"
| "GetPrivate s (JsObject a) = private_slot s a"
| "GetPrivate s (JsArray a) = private_slot s a"
| "GetPrivate s (JsDate a t) = private_slot s a"
| "GetPrivate s _ = None"

definition mv8_function_create ::
  "state \<Rightarrow> nat \<Rightarrow> nat \<Rightarrow> 32 word \<Rightarrow> (nat \<times> state) option" where
  "mv8_function_create s interface' func' func_size' =
     (let callback = next_callback s;
          s1 = s\<lparr>callbacks := (callbacks s)(callback \<mapsto>
                     \<lparr>func = func', func_size = func_size', interface = interface',
                      value_ptr = 0\<rparr>),
                 next_callback := Suc callback\<rparr>;
          local_func = next_object s1;
          s2 = s1\<lparr>heap := (heap s1)(local_func \<mapsto> CallbackFunctionCell callback),
                  next_object := Suc local_func\<rparr>;
          s3 = s2\<lparr>private_slot := (private_slot s2)(local_func \<mapsto> callback)\<rparr>
      in case new_Persistent s3 (JsFunction local_func) of
           (func_value, s4) \<Rightarrow>
             (case Persistent_Get s4 func_value of
                None \<Rightarrow> None
              | Some v \<Rightarrow>
                  (case new_Persistent s4 v of
                     (func_value_weak, s5) \<Rightarrow>
                       (let s6 = s5\<lparr>callbacks := (callbacks s5)(callback :=
                                     map_option (\<lambda>r. r\<lparr>value_ptr := func_value_weak\<rparr>)
                                       (callbacks s5 callback))\<rparr>
                        in case SetWrapperClassId s6 func_value_weak RUST_CALLBACK_CLASS_ID of
                             None \<Rightarrow> None
                           | Some s7 \<Rightarrow>
                               (case SetWeak s7 func_value_weak callback of
                                  None \<Rightarrow> None
                                | Some s8 \<Rightarrow>
                                    Some (func_value,
                                          AdjustAmountOfExternalAllocatedMemory s8
                                            (callback_size func_size')))))))"

text \<open>
  What \<^verbatim>\<open>rust_callback\<close> reads from its \<^verbatim>\<open>v8::FunctionCallbackInfo\<close>: the address wrapped
  by \<^verbatim>\<open>args.Data()\<close>, \<^verbatim>\<open>args.This()\<close>, and the arguments \<^verbatim>\<open>args[0]\<close> to
  \<^verbatim>\<open>args[args.Length() - 1]\<close>.
\<close>

record FunctionCallbackInfo =
  Data :: nat
  This :: jsval
  Arguments :: "jsval list"

text \<open>What the trampoline leaves in the call: a return value or a thrown exception.\<close>

datatype callback_result = ReturnValue_Set jsval | ThrowException jsval

text \<open>
  The loop \<^verbatim>\<open>for (int i = 0; i != arg_descs_len; i++) arg_descs[i] = value_to_desc(..., args[i])\<close>.
\<close>

fun value_to_desc_loop :: "state \<Rightarrow> jsval list \<Rightarrow> (ValueDesc list \<times> state) option" where
  "value_to_desc_loop s [] = Some ([], s)"
| "value_to_desc_loop s (v # vs) =
     (case value_to_desc s v of
        None \<Rightarrow> None
      | Some (desc, s1) \<Rightarrow>
          (case value_to_desc_loop s1 vs of
             None \<Rightarrow> None
           | Some (descs, s2) \<Rightarrow> Some (desc # descs, s2)))"

definition rust_callback ::
  "globals \<Rightarrow> state \<Rightarrow> FunctionCallbackInfo \<Rightarrow> (callback_result \<times> state) option" where
  "rust_callback g s args =
     (case callbacks s (Data args) of
        None \<Rightarrow> None
      | Some callback \<Rightarrow>
          (case value_to_desc s (This args) of
             None \<Rightarrow> None
           | Some (this_desc, s1) \<Rightarrow>
               (case value_to_desc_loop s1 (Arguments args) of
                  None \<Rightarrow> None
                | Some (arg_descs, s2) \<Rightarrow>
                    (case main_callback_wrapper_func g of
                       None \<Rightarrow> None
                     | Some wrapper \<Rightarrow>
                         (case wrapper
                                 (s2\<lparr>wrapper_calls := wrapper_calls s2 @
                                        [(interface callback, func callback, this_desc, arg_descs)]\<rparr>)
                                 (interface callback) (func callback) this_desc arg_descs of
                            (result, s3) \<Rightarrow>
                              (case desc_to_value s3 (value_desc result) of
                                 None \<Rightarrow> None
                               | Some (value, s4) \<Rightarrow>
                                   Some (if is_exception result \<noteq> 0
                                         then ThrowException value
                                         else ReturnValue_Set value, s4)))))))"

definition callback_drop_inner :: "globals \<Rightarrow> state \<Rightarrow> nat \<Rightarrow> state option" where
  "callback_drop_inner g s callback =
     (case callbacks s callback of
        None \<Rightarrow> None
      | Some r \<Rightarrow>
          (case ClearWeak s (value_ptr r) of
             None \<Rightarrow> None
           | Some s1 \<Rightarrow>
               (case main_callback_drop_func g of
                  None \<Rightarrow> None
                | Some drop_func \<Rightarrow>
                    (case Reset_delete (s1\<lparr>drop_calls := drop_calls s1 @ [func r]\<rparr>)
                            (value_ptr r) of
                       None \<Rightarrow> None
                     | Some s2 \<Rightarrow>
                         (let size = callback_size (func_size r);
                              s3 = s2\<lparr>callbacks := (callbacks s2)(callback := None),
                                      finalized := finalized s2 @ [callback]\<rparr>
                          in Some (AdjustAmountOfExternalAllocatedMemory s3 (- size)))))))"

text \<open>The weak callback: \<^verbatim>\<open>data.GetParameter()\<close> is the parameter given to \<^verbatim>\<open>SetWeak\<close>.\<close>

definition callback_drop :: "globals \<Rightarrow> state \<Rightarrow> nat \<Rightarrow> state option" where
  "callback_drop g s parameter = callback_drop_inner g s parameter"

text \<open>
  The collector: when it finds the referent of a live weak handle unreachable, the
  engine calls the handle's weak callback with its parameter. It never does so for a
  handle that is freed or not weak.
\<close>

definition weak_collection :: "globals \<Rightarrow> state \<Rightarrow> nat \<Rightarrow> state option" where
  "weak_collection g s p =
     (case handles s p of
        None \<Rightarrow> Some s
      | Some h \<Rightarrow>
          (case weak_parameter h of
             None \<Rightarrow> Some s
           | Some parameter \<Rightarrow> callback_drop g s parameter))"

definition VisitPersistentHandle :: "globals \<Rightarrow> state \<Rightarrow> nat \<Rightarrow> 16 word \<Rightarrow> state option" where
  "VisitPersistentHandle g s value cid =
     (if cid \<noteq> RUST_CALLBACK_CLASS_ID then Some s
      else
        (case Persistent_Get s value of
           None \<Rightarrow> None
         | Some local_value \<Rightarrow>
             (case GetPrivate s local_value of
                None \<Rightarrow> None
              | Some callback \<Rightarrow> callback_drop_inner g s callback)))"

text \<open>
  \<^verbatim>\<open>isolate->VisitHandlesWithClassIds(&cleaner)\<close>: the engine walks its table of
  persistent handles and calls the visitor on each live handle whose class id was
  set. Handle addresses are below \<open>next_handle\<close>.
\<close>

fun visit_handles :: "globals \<Rightarrow> state \<Rightarrow> nat list \<Rightarrow> state option" where
  "visit_handles g s [] = Some s"
| "visit_handles g s (p # ps) =
     (case handles s p of
        None \<Rightarrow> visit_handles g s ps
      | Some h \<Rightarrow>
          if class_id h = 0 then visit_handles g s ps
          else
            (case VisitPersistentHandle g s p (class_id h) of
               None \<Rightarrow> None
             | Some s' \<Rightarrow> visit_handles g s' ps))"

definition VisitHandlesWithClassIds :: "globals \<Rightarrow> state \<Rightarrow> state option" where
  "VisitHandlesWithClassIds g s = visit_handles g s [0..<next_handle s]"

text \<open>
  \<^verbatim>\<open>mv8_interface_drop\<close>: the sweep, then the release of the private symbol and of the
  context, and \<^verbatim>\<open>isolate->Dispose()\<close>.
\<close>

definition mv8_interface_drop :: "globals \<Rightarrow> state \<Rightarrow> state option" where
  "mv8_interface_drop g s =
     (case VisitHandlesWithClassIds g s of
        None \<Rightarrow> None
      | Some s' \<Rightarrow> Some (s'\<lparr>disposed := True\<rparr>))"

section \<open>Notions used to state the properties\<close>

text \<open>The descriptor of \<^verbatim>\<open>undefined\<close>, which carries no handle.\<close>

definition undefined_desc :: ValueDesc where
  "undefined_desc = \<lparr>payload = payload_byte 0, tag = tag_value Undefined\<rparr>"

text \<open>
  \<open>fresh_strong_handle s s' pl v\<close>: the payload \<open>pl\<close> is the address of a handle that was
  allocated from \<open>s\<close> to \<open>s'\<close>, and nothing else changed; the handle refers to \<open>v\<close>, has no
  class id and is not weak.
\<close>

definition fresh_strong_handle :: "state \<Rightarrow> state \<Rightarrow> ValueDescPayload \<Rightarrow> jsval \<Rightarrow> bool" where
  "fresh_strong_handle s s' pl v \<longleftrightarrow>
     pl = payload_value_ptr (next_handle s) \<and>
     s' = s\<lparr>handles := (handles s)(next_handle s \<mapsto>
              \<lparr>referent = v, class_id = 0, weak_parameter = None\<rparr>),
            next_handle := Suc (next_handle s)\<rparr>"

text \<open>The values that pass one of the tests of \<^verbatim>\<open>value_to_desc\<close>.\<close>

definition classified :: "jsval \<Rightarrow> bool" where
  "classified v \<longleftrightarrow>
     IsUndefined v \<or> IsNull v \<or> IsTrue v \<or> IsFalse v \<or> IsInt32 v \<or> IsNumber v \<or> IsDate v \<or>
     IsString v \<or> IsArray v \<or> IsFunction v \<or> IsObject v"

text \<open>
  Observable equality of engine values: two dates with the same time value, and
  otherwise the same value, which for a heap value means the same referent.
\<close>

fun observably_equal :: "jsval \<Rightarrow> jsval \<Rightarrow> bool" where
  "observably_equal (JsDate a t) (JsDate b u) = (t = u)"
| "observably_equal v w = (v = w)"

text \<open>The \<^verbatim>\<open>TryCatch\<close> gives \<^verbatim>\<open>try_catch_err\<close> something to print.\<close>

definition has_diagnostics :: "TryCatch \<Rightarrow> bool" where
  "has_diagnostics tc \<longleftrightarrow> StackTrace tc \<noteq> None \<or> Message tc \<noteq> None"

text \<open>The handle that decoding a descriptor releases, if its tag is a reference tag.\<close>

definition desc_handle :: "ValueDesc \<Rightarrow> nat list" where
  "desc_handle d =
     (if is_reference_tag (tag d)
      then (case payload d of payload_value_ptr p \<Rightarrow> [p] | _ \<Rightarrow> [])
      else [])"

definition desc_handles :: "ValueDesc list \<Rightarrow> nat list" where
  "desc_handles ds = concat (map desc_handle ds)"

text \<open>
  A descriptor is valid in a state when its payload holds the member that goes with
  its tag and, for a reference tag, its handle is live.
\<close>

definition valid_desc :: "state \<Rightarrow> ValueDesc \<Rightarrow> bool" where
  "valid_desc s d \<longleftrightarrow>
     (if tag d = tag_value Number \<or> tag d = tag_value Date
      then (case payload d of payload_number x \<Rightarrow> True | _ \<Rightarrow> False)
      else if tag d = tag_value Boolean
      then (case payload d of payload_byte b \<Rightarrow> True | _ \<Rightarrow> False)
      else if is_reference_tag (tag d)
      then (case payload d of payload_value_ptr p \<Rightarrow> handles s p \<noteq> None | _ \<Rightarrow> False)
      else True)"

text \<open>Each descriptor owns its handle: no handle occurs twice among the inputs.\<close>

definition valid_descs :: "state \<Rightarrow> ValueDesc list \<Rightarrow> bool" where
  "valid_descs s ds \<longleftrightarrow> list_all (valid_desc s) ds \<and> distinct (desc_handles ds)"

text \<open>
  The handle table is in order: every live handle was allocated (its address is below
  the allocation counter), and the log of releases holds allocated handles that are
  no longer live, none of them twice.
\<close>

definition handle_table_ok :: "state \<Rightarrow> bool" where
  "handle_table_ok s \<longleftrightarrow>
     (\<forall>p. handles s p \<noteq> None \<longrightarrow> p < next_handle s) \<and>
     (\<forall>p \<in> set (released s). handles s p = None \<and> p < next_handle s) \<and>
     distinct (released s)"

text \<open>
  The exported operations that consume descriptors, as calls with their arguments, and
  the two kinds of result they return.
\<close>

datatype operation =
    Array_set nat "32 word" ValueDesc
  | Object_get nat ValueDesc
  | Object_set nat ValueDesc ValueDesc
  | Object_remove nat ValueDesc
  | Object_has nat ValueDesc
  | Coerce_boolean ValueDesc
  | Coerce_number ValueDesc
  | Coerce_string ValueDesc
  | Function_call nat ValueDesc "ValueDesc list"
  | Function_call_new nat "ValueDesc list"

datatype op_result = Outcome TryCatchDesc | Byte "8 word"

fun perform :: "engine \<Rightarrow> state \<Rightarrow> operation \<Rightarrow> (op_result \<times> state) option" where
  "perform E s (Array_set a i d) = map_option (map_prod Outcome id) (mv8_array_set E s a i d)"
| "perform E s (Object_get a k) = map_option (map_prod Outcome id) (mv8_object_get E s a k)"
| "perform E s (Object_set a k d) = map_option (map_prod Outcome id) (mv8_object_set E s a k d)"
| "perform E s (Object_remove a k) = map_option (map_prod Outcome id) (mv8_object_remove E s a k)"
| "perform E s (Object_has a k) = map_option (map_prod Outcome id) (mv8_object_has E s a k)"
| "perform E s (Coerce_boolean d) = map_option (map_prod Byte id) (mv8_coerce_boolean E s d)"
| "perform E s (Coerce_number d) = map_option (map_prod Outcome id) (mv8_coerce_number E s d)"
| "perform E s (Coerce_string d) = map_option (map_prod Outcome id) (mv8_coerce_string E s d)"
| "perform E s (Function_call f t ds) =
     map_option (map_prod Outcome id) (mv8_function_call E s f t ds)"
| "perform E s (Function_call_new f ds) =
     map_option (map_prod Outcome id) (mv8_function_call_new E s f ds)"

text \<open>The descriptors an operation consumes, in the order in which it decodes them.\<close>

fun consumed :: "operation \<Rightarrow> ValueDesc list" where
  "consumed (Array_set a i d) = [d]"
| "consumed (Object_get a k) = [k]"
| "consumed (Object_set a k d) = [k, d]"
| "consumed (Object_remove a k) = [k]"
| "consumed (Object_has a k) = [k]"
| "consumed (Coerce_boolean d) = [d]"
| "consumed (Coerce_number d) = [d]"
| "consumed (Coerce_string d) = [d]"
| "consumed (Function_call f t ds) = t # ds"
| "consumed (Function_call_new f ds) = ds"

text \<open>The handle of the object, array or function operated on is one the host holds.\<close>

fun target_live :: "state \<Rightarrow> operation \<Rightarrow> bool" where
  "target_live s (Array_set a i d) = (handles s a \<noteq> None)"
| "target_live s (Object_get a k) = (handles s a \<noteq> None)"
| "target_live s (Object_set a k d) = (handles s a \<noteq> None)"
| "target_live s (Object_remove a k) = (handles s a \<noteq> None)"
| "target_live s (Object_has a k) = (handles s a \<noteq> None)"
| "target_live s (Function_call f t ds) = (handles s f \<noteq> None)"
| "target_live s (Function_call_new f ds) = (handles s f \<noteq> None)"
| "target_live s _ = True"

text \<open>
  An engine reports its exceptions when every exception it lets a \<^verbatim>\<open>TryCatch\<close> catch
  comes with a stack trace or a message.
\<close>

definition reports :: "'a completion \<Rightarrow> bool" where
  "reports c = (case c of Completed x \<Rightarrow> True | Caught tc \<Rightarrow> has_diagnostics tc)"

definition engine_reports :: "engine \<Rightarrow> bool" where
  "engine_reports E \<longleftrightarrow>
     (\<forall>a b. reports (Object_Get E a b)) \<and>
     (\<forall>a i. reports (Object_Get_index E a i)) \<and>
     (\<forall>a b c. reports (Object_Set E a b c)) \<and>
     (\<forall>a i c. reports (Object_Set_index E a i c)) \<and>
     (\<forall>a b. reports (Object_Delete E a b)) \<and>
     (\<forall>a b. reports (Object_Has E a b)) \<and>
     (\<forall>a. reports (Object_GetPropertyNames E a)) \<and>
     (\<forall>a. reports (Object_GetOwnPropertyNames E a)) \<and>
     (\<forall>a. reports (Value_ToNumber E a)) \<and>
     (\<forall>a. reports (Value_ToString E a)) \<and>
     (\<forall>f t as. reports (Function_Call E f t as)) \<and>
     (\<forall>f as. reports (Function_NewInstance E f as)) \<and>
     (\<forall>src origin. reports (Script_Compile_Run E src origin))"

text \<open>
  \<open>releases s ps s'\<close>: from \<open>s\<close> to \<open>s'\<close> exactly the handles \<open>ps\<close> were released, in this
  order, and no handle was created.
\<close>

definition releases :: "state \<Rightarrow> nat list \<Rightarrow> state \<Rightarrow> bool" where
  "releases s ps s' \<longleftrightarrow>
     handles s' = (\<lambda>p. if p \<in> set ps then None else handles s p) \<and>
     released s' = released s @ ps \<and>
     next_handle s' = next_handle s"

text \<open>
  \<open>allocates s s'\<close>: from \<open>s\<close> to \<open>s'\<close> no handle was released and at most one handle was
  created, at the next free address.
\<close>

definition allocates :: "state \<Rightarrow> state \<Rightarrow> bool" where
  "allocates s s' \<longleftrightarrow>
     released s' = released s \<and>
     (handles s' = handles s \<and> next_handle s' = next_handle s \<or>
      (\<exists>h. handles s' = (handles s)(next_handle s \<mapsto> h)) \<and>
      next_handle s' = Suc (next_handle s))"

text \<open>\<open>consumes s ps s'\<close>: first exactly the handles \<open>ps\<close> are released, then at most one is created.\<close>

definition consumes :: "state \<Rightarrow> nat list \<Rightarrow> state \<Rightarrow> bool" where
  "consumes s ps s' \<longleftrightarrow> (\<exists>s1. releases s ps s1 \<and> allocates s1 s')"

text \<open>
  A sequence of operations, each called on valid descriptors and a live target.
\<close>

fun perform_all :: "engine \<Rightarrow> state \<Rightarrow> operation list \<Rightarrow> state option" where
  "perform_all E s [] = Some s"
| "perform_all E s (op # ops) =
     (if valid_descs s (consumed op) \<and> target_live s op
      then (case perform E s op of
              None \<Rightarrow> None
            | Some (r, s') \<Rightarrow> perform_all E s' ops)
      else None)"

text \<open>Two engines for the examples: one whose calls all complete, one whose calls all throw.\<close>

definition completing_engine :: engine where
  "completing_engine =
     \<lparr>Object_Get = (\<lambda>a b. Completed JsUndefined),
      Object_Get_index = (\<lambda>a i. Completed JsUndefined),
      Object_Set = (\<lambda>a b c. Completed True),
      Object_Set_index = (\<lambda>a i c. Completed True),
      Object_Delete = (\<lambda>a b. Completed True),
      Object_Has = (\<lambda>a b. Completed False),
      Object_GetPropertyNames = (\<lambda>a. Completed (JsArray 0)),
      Object_GetOwnPropertyNames = (\<lambda>a. Completed (JsArray 0)),
      Value_BooleanValue = (\<lambda>a. True),
      Value_ToNumber = (\<lambda>a. Completed (Int32Double 0)),
      Value_ToString = (\<lambda>a. Completed (JsString 0)),
      Function_Call = (\<lambda>f t as. Completed JsUndefined),
      Function_NewInstance = (\<lambda>f as. Completed (JsObject 0)),
      Script_Compile_Run = (\<lambda>src origin. Completed JsUndefined)\<rparr>"

definition throwing_engine :: "TryCatch \<Rightarrow> engine" where
  "throwing_engine tc =
     \<lparr>Object_Get = (\<lambda>a b. Caught tc),
      Object_Get_index = (\<lambda>a i. Caught tc),
      Object_Set = (\<lambda>a b c. Caught tc),
      Object_Set_index = (\<lambda>a i c. Caught tc),
      Object_Delete = (\<lambda>a b. Caught tc),
      Object_Has = (\<lambda>a b. Caught tc),
      Object_GetPropertyNames = (\<lambda>a. Caught tc),
      Object_GetOwnPropertyNames = (\<lambda>a. Caught tc),
      Value_BooleanValue = (\<lambda>a. True),
      Value_ToNumber = (\<lambda>a. Caught tc),
      Value_ToString = (\<lambda>a. Caught tc),
      Function_Call = (\<lambda>f t as. Caught tc),
      Function_NewInstance = (\<lambda>f as. Caught tc),
      Script_Compile_Run = (\<lambda>src origin. Caught tc)\<rparr>"

text \<open>A script that throws the number 42: the engine supplies a message, no stack trace.\<close>

definition throw_42 :: TryCatch where
  "throw_42 =
     \<lparr>Exception = JsNumber (Int32Double 42), HasTerminated = False, StackTrace = None,
      Message = Some ''Uncaught 42''\<rparr>"

text \<open>An isolate in which the host holds handle 0 to an object and handle 1 to a string.\<close>

definition two_handles :: state where
  "two_handles =
     snd (new_Persistent (snd (new_Persistent mv8_interface_new (JsObject 0))) (JsString 1))"

definition string_desc :: "nat \<Rightarrow> ValueDesc" where
  "string_desc p = \<lparr>payload = payload_value_ptr p, tag = tag_value String\<rparr>"

text \<open>The state after \<^verbatim>\<open>mv8_function_create\<close>.\<close>

definition created :: "state \<Rightarrow> nat \<Rightarrow> nat \<Rightarrow> 32 word \<Rightarrow> state" where
  "created s i f sz =
     s\<lparr>handles := (handles s)
          (next_handle s \<mapsto>
             \<lparr>referent = JsFunction (next_object s), class_id = 0, weak_parameter = None\<rparr>,
           Suc (next_handle s) \<mapsto>
             \<lparr>referent = JsFunction (next_object s), class_id = RUST_CALLBACK_CLASS_ID,
              weak_parameter = Some (next_callback s)\<rparr>),
       next_handle := Suc (Suc (next_handle s)),
       callbacks := (callbacks s)(next_callback s \<mapsto>
          \<lparr>func = f, func_size = sz, interface = i, value_ptr = Suc (next_handle s)\<rparr>),
       next_callback := Suc (next_callback s),
       heap := (heap s)(next_object s \<mapsto> CallbackFunctionCell (next_callback s)),
       private_slot := (private_slot s)(next_object s \<mapsto> next_callback s),
       next_object := Suc (next_object s),
       external_memory := external_memory s + callback_size sz\<rparr>"

text \<open>The registration of a closure of size 16 at a new isolate, by interface 0, closure pointer 7.\<close>

definition one_callback :: state where
  "one_callback = created mv8_interface_new 0 7 16"

text \<open>A host dispatcher that hands its second argument back as the result.\<close>

definition second_argument :: rust_callback_wrapper where
  "second_argument s i f this_desc arg_descs =
     (\<lparr>value_desc = arg_descs ! 1, is_exception = 0\<rparr>, s)"

text \<open>
  What happens to the handle table over the lifetime of an isolate: a closure is
  registered; the collector fires the weak callback of a handle; the host acquires a
  strong handle (the result of any operation, or a clone); the host releases a handle
  that it holds (by \<^verbatim>\<open>mv8_value_ptr_drop\<close>, as by handing it to an operation in a
  descriptor). The host holds only handles that the bridge returned to it, which
  carry no class id: the weak handle of a registration never leaves the bridge.
\<close>

datatype event =
    Register nat nat "32 word"
  | Collect nat
  | Acquire jsval
  | Release nat

fun step :: "globals \<Rightarrow> state \<Rightarrow> event \<Rightarrow> state option" where
  "step g s (Register i f sz) = map_option snd (mv8_function_create s i f sz)"
| "step g s (Collect p) = weak_collection g s p"
| "step g s (Acquire v) = Some (snd (new_Persistent s v))"
| "step g s (Release p) =
     (case handles s p of
        None \<Rightarrow> None
      | Some h \<Rightarrow> if class_id h = 0 then mv8_value_ptr_drop s p else None)"

fun run :: "globals \<Rightarrow> state \<Rightarrow> event list \<Rightarrow> state option" where
  "run g s [] = Some s"
| "run g s (e # es) = (case step g s e of None \<Rightarrow> None | Some s' \<Rightarrow> run g s' es)"

text \<open>The closure pointers registered by a sequence of events, in order.\<close>

fun registered :: "event list \<Rightarrow> nat list" where
  "registered [] = []"
| "registered (Register i f sz # es) = f # registered es"
| "registered (e # es) = registered es"

fun is_Collect :: "event \<Rightarrow> bool" where
  "is_Collect (Collect p) = True"
| "is_Collect _ = False"

text \<open>
  An example lifetime: two closures are registered, the host acquires a handle, the
  collector fires for the weak handle of the first registration (handle 1), and the
  host releases the function handle it got from the first registration (handle 0).
\<close>

definition example_events :: "event list" where
  "example_events =
     [Register 0 7 16, Register 0 8 4, Acquire (JsObject 9), Collect (Suc 0), Release 0]"

definition example_globals :: globals where
  "example_globals = mv8_init (Some second_argument) (Some (\<lambda>p. ()))"

text \<open>The state after \<^verbatim>\<open>callback_drop_inner\<close> on the live record \<open>r\<close> at address \<open>c\<close>.\<close>

definition finalize :: "state \<Rightarrow> nat \<Rightarrow> RustCallback \<Rightarrow> state" where
  "finalize s c r =
     s\<lparr>handles := (handles s)(value_ptr r := None),
       released := released s @ [value_ptr r],
       drop_calls := drop_calls s @ [func r],
       callbacks := (callbacks s)(c := None),
       finalized := finalized s @ [c],
       external_memory := external_memory s - callback_size (func_size r)\<rparr>"

text \<open>
  The invariant that ties the records to the handle table, \<open>regs\<close> being the closure
  pointers registered so far: the record at address \<open>c\<close> holds the \<open>c\<close>-th of them and
  owns a live handle with the callback class id, weak with parameter \<open>c\<close>, whose
  referent stores \<open>c\<close> in its private slot; every handle with a class id or a weak
  callback belongs to a live record; the records finalized so far are the freed ones,
  each logged once, and the drop dispatcher was called on their closure pointers.
\<close>

definition cb_inv :: "nat list \<Rightarrow> state \<Rightarrow> bool" where
  "cb_inv regs s \<longleftrightarrow>
     (\<forall>p h. handles s p = Some h \<longrightarrow> p < next_handle s) \<and>
     (\<forall>a c. private_slot s a = Some c \<longrightarrow> a < next_object s) \<and>
     next_callback s = length regs \<and>
     (\<forall>c r. callbacks s c = Some r \<longrightarrow>
        c < length regs \<and> func r = regs ! c \<and>
        (\<exists>h. handles s (value_ptr r) = Some h \<and> class_id h = RUST_CALLBACK_CLASS_ID \<and>
             weak_parameter h = Some c \<and> GetPrivate s (referent h) = Some c)) \<and>
     (\<forall>p h. handles s p = Some h \<longrightarrow> class_id h \<noteq> 0 \<or> weak_parameter h \<noteq> None \<longrightarrow>
        (\<exists>c r. callbacks s c = Some r \<and> value_ptr r = p)) \<and>
     distinct (finalized s) \<and>
     set (finalized s) = {c. c < length regs \<and> callbacks s c = None} \<and>
     drop_calls s = map (nth regs) (finalized s)"

text \<open>The external memory charged for the record at an address, 0 once it is freed.\<close>

definition charge :: "state \<Rightarrow> nat \<Rightarrow> 64 word" where
  "charge s c = (case callbacks s c of None \<Rightarrow> 0 | Some r \<Rightarrow> callback_size (func_size r))"

text \<open>The accounting holds the charges of the live records.\<close>

definition mem_inv :: "state \<Rightarrow> bool" where
  "mem_inv s \<longleftrightarrow> external_memory s = (\<Sum>c<next_callback s. charge s c)"

text \<open>
  \<open>refers s d t v\<close>: the descriptor \<open>d\<close> has the reference tag \<open>t\<close> and its payload is the
  address of a handle that in the state \<open>s\<close> is live, strong and refers to \<open>v\<close>.
\<close>

definition refers :: "state \<Rightarrow> ValueDesc \<Rightarrow> ValueDescTag \<Rightarrow> jsval \<Rightarrow> bool" where
  "refers s d t v \<longleftrightarrow>
     tag d = tag_value t \<and>
     (case payload d of
        payload_value_ptr p \<Rightarrow>
          handles s p = Some \<lparr>referent = v, class_id = 0, weak_parameter = None\<rparr>
      | _ \<Rightarrow> False)"

text \<open>
  \<open>encodes s d v\<close>: in the state \<open>s\<close> the descriptor \<open>d\<close> is the encoding of the value \<open>v\<close>:
  the descriptor of its class with its payload, and for a string, array, function or
  object a descriptor whose handle is live in \<open>s\<close> and refers to \<open>v\<close> itself.
\<close>

fun encodes :: "state \<Rightarrow> ValueDesc \<Rightarrow> jsval \<Rightarrow> bool" where
  "encodes s d JsUndefined = (d = undefined_desc)"
| "encodes s d JsNull = (d = \<lparr>payload = payload_byte 0, tag = tag_value Null\<rparr>)"
| "encodes s d (JsBoolean b) =
     (d = \<lparr>payload = payload_byte (if b then 1 else 0), tag = tag_value Boolean\<rparr>)"
| "encodes s d (JsNumber n) = (d = \<lparr>payload = payload_number n, tag = tag_value Number\<rparr>)"
| "encodes s d (JsDate a t) = (d = \<lparr>payload = payload_number t, tag = tag_value Date\<rparr>)"
| "encodes s d (JsString a) = refers s d String (JsString a)"
| "encodes s d (JsArray a) = refers s d Array (JsArray a)"
| "encodes s d (JsFunction a) = refers s d Function (JsFunction a)"
| "encodes s d (JsObject a) = refers s d Object (JsObject a)"
| "encodes s d (JsSymbol a) = (d = undefined_desc)"
| "encodes s d (JsBigInt a) = (d = undefined_desc)"

text \<open>
  What decoding gives back for an encoded value: an observably equal value, and
  \<^verbatim>\<open>undefined\<close> for a value that the encoding does not classify.
\<close>

definition received :: "jsval \<Rightarrow> jsval \<Rightarrow> bool" where
  "received v v' \<longleftrightarrow> (if classified v then observably_equal v v' else v' = JsUndefined)"

text \<open>A host dispatcher that hands its first argument back as the result.\<close>

definition first_argument :: rust_callback_wrapper where
  "first_argument s i f this_desc arg_descs =
     (\<lparr>value_desc = arg_descs ! 0, is_exception = 0\<rparr>, s)"

text \<open>\<open>extends s s'\<close>: from \<open>s\<close> to \<open>s'\<close> handles were only allocated.\<close>

definition extends :: "state \<Rightarrow> state \<Rightarrow> bool" where
  "extends s s' \<longleftrightarrow>
     next_handle s \<le> next_handle s' \<and>
     (\<forall>p < next_handle s. handles s' p = handles s p) \<and>
     wrapper_calls s' = wrapper_calls s \<and> callbacks s' = callbacks s \<and>
     released s' = released s"

section \<open>Properties of the descriptor conversion\<close>

lemma value_to_desc_simps:
  "value_to_desc s JsUndefined = Some (undefined_desc, s)"
  "value_to_desc s JsNull = Some (\<lparr>payload = payload_byte 0, tag = tag_value Null\<rparr>, s)"
  "value_to_desc s (JsBoolean b) =
     Some (\<lparr>payload = payload_byte (if b then 1 else 0), tag = tag_value Boolean\<rparr>, s)"
  "value_to_desc s (JsNumber d) = Some (\<lparr>payload = payload_number d, tag = tag_value Number\<rparr>, s)"
  "value_to_desc s (JsDate a t) = Some (\<lparr>payload = payload_number t, tag = tag_value Date\<rparr>, s)"
  "value_to_desc s (JsString a) = Some (reference_desc s String (JsString a))"
  "value_to_desc s (JsArray a) = Some (reference_desc s Array (JsArray a))"
  "value_to_desc s (JsFunction a) = Some (reference_desc s Function (JsFunction a))"
  "value_to_desc s (JsObject a) = Some (reference_desc s Object (JsObject a))"
  "value_to_desc s (JsSymbol a) = Some (undefined_desc, s)"
  "value_to_desc s (JsBigInt a) = Some (undefined_desc, s)"
  by (cases d; simp add: value_to_desc_def undefined_desc_def double_of_int32_def)+

lemma reference_desc_eq:
  "reference_desc s t v =
     (\<lparr>payload = payload_value_ptr (next_handle s), tag = tag_value t\<rparr>,
      s\<lparr>handles := (handles s)(next_handle s \<mapsto>
            \<lparr>referent = v, class_id = 0, weak_parameter = None\<rparr>),
        next_handle := Suc (next_handle s)\<rparr>)"
  by (simp add: reference_desc_def new_Persistent_def)

text \<open>
  Claim C4. \<^verbatim>\<open>value_to_desc\<close> never fails: on every engine value and in every state it
  returns a descriptor. \<^verbatim>\<open>undefined\<close> gives the tag Undefined, \<^verbatim>\<open>null\<close> the tag Null, a
  boolean the tag Boolean with payload byte 1 or 0, every number (a 32-bit integer
  included, widened to a double) the tag Number with the number as payload, a date
  the tag Date with its time value, and a string, array, function or other object the
  tag String, Array, Function or Object with a handle that is newly allocated, strong
  (no class id, not weak) and refers to that very value. Every other value (a symbol,
  a big integer) gives the descriptor of \<^verbatim>\<open>undefined\<close>. Only the reference variants
  change the state.
\<close>

theorem value_to_desc_total:
  "\<exists>desc s'. value_to_desc s v = Some (desc, s') \<and>
     (case v of
        JsUndefined \<Rightarrow> desc = undefined_desc \<and> s' = s
      | JsNull \<Rightarrow> tag desc = tag_value Null \<and> s' = s
      | JsBoolean b \<Rightarrow>
          tag desc = tag_value Boolean \<and> payload desc = payload_byte (if b then 1 else 0) \<and> s' = s
      | JsNumber d \<Rightarrow> tag desc = tag_value Number \<and> payload desc = payload_number d \<and> s' = s
      | JsDate a t \<Rightarrow> tag desc = tag_value Date \<and> payload desc = payload_number t \<and> s' = s
      | JsString a \<Rightarrow> tag desc = tag_value String \<and> fresh_strong_handle s s' (payload desc) v
      | JsArray a \<Rightarrow> tag desc = tag_value Array \<and> fresh_strong_handle s s' (payload desc) v
      | JsFunction a \<Rightarrow> tag desc = tag_value Function \<and> fresh_strong_handle s s' (payload desc) v
      | JsObject a \<Rightarrow> tag desc = tag_value Object \<and> fresh_strong_handle s s' (payload desc) v
      | JsSymbol a \<Rightarrow> desc = undefined_desc \<and> s' = s
      | JsBigInt a \<Rightarrow> desc = undefined_desc \<and> s' = s)"
  by (cases v) (simp_all add: value_to_desc_simps reference_desc_eq fresh_strong_handle_def)

text \<open>The number 42, an engine-native 32-bit integer, at a new isolate.\<close>

theorem value_to_desc_total_witness:
  "\<exists>desc s'. value_to_desc mv8_interface_new (JsNumber (Int32Double 42)) = Some (desc, s') \<and>
     tag desc = 2 \<and> payload desc = payload_number (Int32Double 42) \<and> s' = mv8_interface_new"
  using value_to_desc_total [of mv8_interface_new "JsNumber (Int32Double 42)"] by simp

text \<open>
  Claim C3, as stated, fails at a symbol: it is encoded as Undefined, which decodes to
  \<^verbatim>\<open>undefined\<close>.
\<close>

theorem roundtrip_counterexample:
  "value_to_desc mv8_interface_new (JsSymbol 0) = Some (undefined_desc, mv8_interface_new) \<and>
   desc_to_value mv8_interface_new undefined_desc = Some (JsUndefined, mv8_interface_new) \<and>
   \<not> observably_equal (JsSymbol 0) JsUndefined"
  by (simp add: value_to_desc_simps desc_to_value_def undefined_desc_def is_reference_tag_def)

text \<open>
  Claim C3, amended. For every engine value that \<^verbatim>\<open>value_to_desc\<close> classifies (every
  value but a symbol or a big integer, which it degrades to Undefined), decoding the
  descriptor produced by encoding it succeeds and gives an observably equal value:
  the same value for \<^verbatim>\<open>undefined\<close>, \<^verbatim>\<open>null\<close>, booleans and numbers, a new date object with
  the same time value for a date, and the identical referent for a string, array,
  function or object.
\<close>

theorem roundtrip:
  assumes "classified v"
  shows "\<exists>desc s1 v' s2. value_to_desc s v = Some (desc, s1) \<and>
           desc_to_value s1 desc = Some (v', s2) \<and> observably_equal v v' \<and>
           (case v of JsDate a t \<Rightarrow> v' = JsDate (next_object s) t | _ \<Rightarrow> v' = v)"
proof (cases v)
  case (JsBoolean b)
  then show ?thesis
    by (cases b) (simp_all add: value_to_desc_simps desc_to_value_def)
next
  case (JsSymbol a)
  with assms show ?thesis by (simp add: classified_def)
next
  case (JsBigInt a)
  with assms show ?thesis by (simp add: classified_def)
qed (simp_all add: value_to_desc_simps desc_to_value_def undefined_desc_def is_reference_tag_def
       Date_New_def reference_desc_eq Reset_delete_def)

text \<open>A string at a new isolate.\<close>

theorem roundtrip_witness:
  "classified (JsString 5) \<and>
   (\<exists>desc s1 s2. value_to_desc mv8_interface_new (JsString 5) = Some (desc, s1) \<and>
           desc_to_value s1 desc = Some (JsString 5, s2))"
proof -
  have c: "classified (JsString 5)" by (simp add: classified_def)
  from roundtrip [OF c, of mv8_interface_new] show ?thesis using c by auto
qed


section \<open>Properties of the exception channel\<close>

lemma print_diagnostics_None: "print_diagnostics s tc = None \<longleftrightarrow> \<not> has_diagnostics tc"
  by (simp add: print_diagnostics_def has_diagnostics_def split: option.splits)

lemma value_to_desc_not_None: "value_to_desc s v \<noteq> None"
  by (cases v) (simp_all add: value_to_desc_simps)

text \<open>
  Claim C5 at a terminated execution. The engine reports a termination with neither a
  stack trace nor a message; \<^verbatim>\<open>try_catch_err\<close> then dereferences the empty message handle
  in its diagnostic output, before it reaches the substitution of the timeout error:
  no Outcome is returned.
\<close>

theorem try_catch_err_termination_crash:
  "try_catch_err mv8_interface_new
     \<lparr>Exception = JsNull, HasTerminated = True, StackTrace = None, Message = None\<rparr> = None"
  by (simp add: try_catch_err_def print_diagnostics_def)

text \<open>
  When the diagnostic output succeeds, the Outcome of \<^verbatim>\<open>try_catch_err\<close> is an exception
  and carries the encoding by \<^verbatim>\<open>value_to_desc\<close> of the thrown value itself, not wrapped
  (for a thrown symbol or big integer that encoding is Undefined), or, after a
  termination, a handle to a new error object whose message is the timeout text.
\<close>

lemma try_catch_err_thrown:
  assumes "print_diagnostics s tc = Some s1" "\<not> HasTerminated tc"
  shows "try_catch_err s tc =
           map_option (\<lambda>(desc, s'). (\<lparr>value_desc = desc, is_exception = 1\<rparr>, s'))
             (value_to_desc s1 (Exception tc))"
  using assms by (simp add: try_catch_err_def split: option.splits)

lemma try_catch_err_terminated:
  assumes "print_diagnostics s tc = Some s1" "HasTerminated tc"
  shows "\<exists>s'. try_catch_err s tc =
           Some (\<lparr>value_desc = \<lparr>payload = payload_value_ptr (next_handle s), tag = tag_value Object\<rparr>,
                  is_exception = 1\<rparr>, s') \<and>
           handles s' (next_handle s) =
             Some \<lparr>referent = JsObject (Suc (next_object s)), class_id = 0, weak_parameter = None\<rparr> \<and>
           heap s' (Suc (next_object s)) = Some (ErrorCell (next_object s)) \<and>
           heap s' (next_object s) = Some (StringCell ''execution timed out'')"
  using assms
  by (auto simp: try_catch_err_def string_new_def Exception_Error_def value_to_desc_simps
      reference_desc_eq EXECUTION_TIMEOUT_MESSAGE_def print_diagnostics_def
      split: option.splits)

lemma try_catch_err_None: "try_catch_err s tc = None \<longleftrightarrow> \<not> has_diagnostics tc"
proof (cases "print_diagnostics s tc")
  case None
  then have "\<not> has_diagnostics tc"
    using print_diagnostics_None [of s tc] by simp
  with None show ?thesis
    by (simp add: try_catch_err_def)
next
  case (Some s1)
  then have d: "has_diagnostics tc"
    using print_diagnostics_None [of s tc] by simp
  have "try_catch_err s tc \<noteq> None"
  proof (cases "HasTerminated tc")
    case True
    from try_catch_err_terminated [OF Some True] show ?thesis by auto
  next
    case False
    from try_catch_err_thrown [OF Some False] value_to_desc_not_None [of s1 "Exception tc"]
    show ?thesis by auto
  qed
  with d show ?thesis by simp
qed

text \<open>
  Claim C10. The value-less success Outcome is the Undefined descriptor with
  \<open>is_exception = 0\<close>; it is the very Outcome that \<^verbatim>\<open>try_catch_ok\<close> builds for the value
  \<^verbatim>\<open>undefined\<close>; its tag is no reference tag and its payload is the byte 0, so it carries
  no handle. Setting by key, setting by index and deleting by key return exactly this
  Outcome whenever the engine call completes.
\<close>

theorem noval_success:
  "try_catch_ok_noval = \<lparr>value_desc = undefined_desc, is_exception = 0\<rparr> \<and>
   try_catch_ok s JsUndefined = Some (try_catch_ok_noval, s) \<and>
   \<not> is_reference_tag (tag (value_desc try_catch_ok_noval)) \<and>
   payload (value_desc try_catch_ok_noval) = payload_byte 0 \<and>
   (\<forall>local_object key value s1 s2 b.
      Persistent_Get s object = Some local_object \<longrightarrow>
      desc_to_value s key_desc = Some (key, s1) \<longrightarrow>
      desc_to_value s1 value_desc' = Some (value, s2) \<longrightarrow>
      Object_Set E local_object key value = Completed b \<longrightarrow>
      mv8_object_set E s object key_desc value_desc' = Some (try_catch_ok_noval, s2)) \<and>
   (\<forall>local_object value s1 b.
      Persistent_Get s object = Some local_object \<longrightarrow>
      desc_to_value s value_desc' = Some (value, s1) \<longrightarrow>
      Object_Set_index E local_object index value = Completed b \<longrightarrow>
      mv8_array_set E s object index value_desc' = Some (try_catch_ok_noval, s1)) \<and>
   (\<forall>local_object key s1 b.
      Persistent_Get s object = Some local_object \<longrightarrow>
      desc_to_value s key_desc = Some (key, s1) \<longrightarrow>
      Object_Delete E local_object key = Completed b \<longrightarrow>
      mv8_object_remove E s object key_desc = Some (try_catch_ok_noval, s1))"
  by (simp add: try_catch_ok_noval_def undefined_desc_def try_catch_ok_def value_to_desc_simps
      is_reference_tag_def mv8_object_set_def mv8_array_set_def mv8_object_remove_def)

section \<open>Release of the handles carried by descriptors\<close>

lemma releases_Nil: "releases s [] s' \<longleftrightarrow> handles s' = handles s \<and> released s' = released s \<and> next_handle s' = next_handle s"
  by (simp add: releases_def)

lemma releases_trans:
  "releases s ps s1 \<Longrightarrow> releases s1 qs s2 \<Longrightarrow> releases s (ps @ qs) s2"
  by (auto simp: releases_def fun_eq_iff)

lemma desc_to_value_valid:
  assumes "valid_desc s d"
  shows "\<exists>v s1. desc_to_value s d = Some (v, s1) \<and> releases s (desc_handle d) s1"
proof -
  consider (null) "tag d = tag_value Null"
    | (num) "tag d = tag_value Number"
    | (bool) "tag d = tag_value Boolean"
    | (date) "tag d = tag_value Date"
    | (ref) "is_reference_tag (tag d)"
    | (other) "tag d \<noteq> tag_value Null" "tag d \<noteq> tag_value Number" "tag d \<noteq> tag_value Boolean"
        "tag d \<noteq> tag_value Date" "\<not> is_reference_tag (tag d)"
    by blast
  then show ?thesis
  proof cases
    case null
    then show ?thesis
      by (simp add: desc_to_value_def desc_handle_def is_reference_tag_def releases_def)
  next
    case num
    with assms show ?thesis
      by (auto simp: desc_to_value_def desc_handle_def is_reference_tag_def valid_desc_def
          releases_def split: ValueDescPayload.splits)
  next
    case bool
    with assms show ?thesis
      by (auto simp: desc_to_value_def desc_handle_def is_reference_tag_def valid_desc_def
          releases_def split: ValueDescPayload.splits)
  next
    case date
    with assms show ?thesis
      by (auto simp: desc_to_value_def desc_handle_def is_reference_tag_def valid_desc_def
          Date_New_def releases_def split: ValueDescPayload.splits)
  next
    case ref
    with assms obtain p h where p: "payload d = payload_value_ptr p" "handles s p = Some h"
      by (auto simp: valid_desc_def is_reference_tag_def split: ValueDescPayload.splits if_splits)
    with ref show ?thesis
      by (auto simp: desc_to_value_def desc_handle_def is_reference_tag_def Reset_delete_def
          releases_def fun_eq_iff)
  next
    case other
    then show ?thesis by (simp add: desc_to_value_def desc_handle_def releases_def)
  qed
qed

lemma valid_desc_after_release:
  assumes "valid_desc s d" "releases s ps s1" "set (desc_handle d) \<inter> set ps = {}"
  shows "valid_desc s1 d"
proof (cases "is_reference_tag (tag d)")
  case True
  then have t: "tag d \<noteq> tag_value Number" "tag d \<noteq> tag_value Date" "tag d \<noteq> tag_value Boolean"
    by (auto simp: is_reference_tag_def)
  show ?thesis
  proof (cases "payload d")
    case (payload_value_ptr p)
    with True assms(3) have "p \<notin> set ps" by (simp add: desc_handle_def)
    with assms(1,2) True t payload_value_ptr show ?thesis
      by (simp add: valid_desc_def releases_def)
  qed (use assms(1) True t in \<open>simp_all add: valid_desc_def\<close>)
next
  case False
  with assms(1) show ?thesis by (simp add: valid_desc_def)
qed

lemma desc_to_value_loop_valid:
  assumes "valid_descs s ds"
  shows "\<exists>vs s1. desc_to_value_loop s ds = Some (vs, s1) \<and> releases s (desc_handles ds) s1 \<and>
           length vs = length ds"
  using assms
proof (induction ds arbitrary: s)
  case Nil
  then show ?case by (simp add: desc_handles_def releases_def)
next
  case (Cons d ds)
  from Cons.prems have vd: "valid_desc s d" and vds: "list_all (valid_desc s) ds"
    and dist: "distinct (desc_handle d @ desc_handles ds)"
    by (simp_all add: valid_descs_def desc_handles_def)
  from desc_to_value_valid [OF vd] obtain v s1
    where d: "desc_to_value s d = Some (v, s1)" and r: "releases s (desc_handle d) s1"
    by blast
  have "list_all (valid_desc s1) ds"
    unfolding list_all_iff
  proof
    fix d' assume d': "d' \<in> set ds"
    with vds have "valid_desc s d'" by (simp add: list_all_iff)
    moreover from d' have "set (desc_handle d') \<subseteq> set (desc_handles ds)"
      by (auto simp: desc_handles_def)
    with dist have "set (desc_handle d') \<inter> set (desc_handle d) = {}" by auto
    ultimately show "valid_desc s1 d'" using r valid_desc_after_release by blast
  qed
  moreover from dist have "distinct (desc_handles ds)" by simp
  ultimately have "valid_descs s1 ds" by (simp add: valid_descs_def)
  from Cons.IH [OF this] obtain vs s2
    where l: "desc_to_value_loop s1 ds = Some (vs, s2)" and r2: "releases s1 (desc_handles ds) s2"
      and len: "length vs = length ds"
    by blast
  have "desc_handles (d # ds) = desc_handle d @ desc_handles ds"
    by (simp add: desc_handles_def)
  with d l len releases_trans [OF r r2] show ?case by simp
qed

lemma new_Persistent_allocates: "new_Persistent s v = (p, s') \<Longrightarrow> allocates s s' \<and> p = next_handle s"
  by (auto simp: new_Persistent_def allocates_def)

lemma value_to_desc_allocates: "value_to_desc s v = Some (d, s') \<Longrightarrow> allocates s s'"
  by (cases v) (auto simp: value_to_desc_simps reference_desc_eq allocates_def undefined_desc_def)

lemma try_catch_ok_allocates: "try_catch_ok s v = Some (out, s') \<Longrightarrow> allocates s s' \<and> is_exception out = 0"
  by (auto simp: try_catch_ok_def dest: value_to_desc_allocates split: option.splits)

lemma print_diagnostics_handles:
  "print_diagnostics s tc = Some s1 \<Longrightarrow>
     handles s1 = handles s \<and> released s1 = released s \<and> next_handle s1 = next_handle s"
  by (auto simp: print_diagnostics_def split: option.splits)

lemma allocates_cong:
  "allocates s1 s' \<Longrightarrow> handles s1 = handles s \<Longrightarrow> released s1 = released s \<Longrightarrow>
     next_handle s1 = next_handle s \<Longrightarrow> allocates s s'"
  by (simp add: allocates_def)

lemma allocates_refl: "allocates s s"
  by (simp add: allocates_def)

lemma try_catch_err_allocates:
  assumes "try_catch_err s tc = Some (out, s')"
  shows "allocates s s' \<and> is_exception out = 1"
proof -
  from assms obtain s1 where p: "print_diagnostics s tc = Some s1"
    by (auto simp: try_catch_err_def split: option.splits)
  note h = print_diagnostics_handles [OF p]
  show ?thesis
  proof (cases "HasTerminated tc")
    case True
    from try_catch_err_terminated [OF p True] assms obtain h0 where
      "handles s' (next_handle s) = Some h0" "is_exception out = 1" by auto
    moreover
    from assms p True have "allocates s1 s'"
      by (auto simp: try_catch_err_def string_new_def Exception_Error_def value_to_desc_simps
          reference_desc_eq allocates_def)
    ultimately show ?thesis using h allocates_cong by blast
  next
    case False
    from try_catch_err_thrown [OF p False] assms
    have "\<exists>d. value_to_desc s1 (Exception tc) = Some (d, s') \<and> is_exception out = 1"
      by (cases "value_to_desc s1 (Exception tc)") auto
    then show ?thesis using h allocates_cong value_to_desc_allocates by blast
  qed
qed

lemma try_catch_err_reports:
  "has_diagnostics tc \<Longrightarrow> \<exists>out s'. try_catch_err s tc = Some (out, s')"
  using try_catch_err_None [of s tc] by (cases "try_catch_err s tc") auto

lemma try_catch_ok_Some: "\<exists>out s'. try_catch_ok s v = Some (out, s')"
  using value_to_desc_not_None [of s v] by (auto simp: try_catch_ok_def split: option.splits)

lemma outcome_tail:
  assumes "releases s ps s1"
    and "(case c of Completed x \<Rightarrow> k x | Caught tc \<Rightarrow> try_catch_err s1 tc) = Some (out, s')"
    and "\<And>x. c = Completed x \<Longrightarrow> k x = Some (out, s') \<Longrightarrow> allocates s1 s'"
  shows "consumes s ps s'"
  using assms
  by (cases c) (auto simp: consumes_def dest: try_catch_err_allocates)

lemma outcome_tail_returns:
  assumes "reports c" and "\<And>x. k x \<noteq> None"
  shows "(case c of Completed x \<Rightarrow> k x | Caught tc \<Rightarrow> try_catch_err s1 tc) \<noteq> None"
  using assms try_catch_err_None
  by (cases c) (auto simp: reports_def)

lemma valid_descs_single: "valid_descs s [d] \<Longrightarrow> valid_desc s d"
  by (simp add: valid_descs_def)

lemma desc_handles_single: "desc_handles [d] = desc_handle d"
  by (simp add: desc_handles_def)

lemma Persistent_Get_live: "handles s a \<noteq> None \<Longrightarrow> \<exists>v. Persistent_Get s a = Some v"
  by (auto simp: Persistent_Get_def)

lemma mv8_object_get_consumes:
  assumes "valid_descs s [k]" "handles s a \<noteq> None"
  shows "mv8_object_get E s a k = Some (out, s') \<Longrightarrow> consumes s (desc_handles [k]) s'"
    and "engine_reports E \<Longrightarrow> mv8_object_get E s a k \<noteq> None"
proof -
  from Persistent_Get_live [OF assms(2)] obtain lo where lo: "Persistent_Get s a = Some lo" ..
  from desc_to_value_valid [OF valid_descs_single [OF assms(1)]] obtain v s1
    where d: "desc_to_value s k = Some (v, s1)" and r: "releases s (desc_handle k) s1" by blast
  have eq: "mv8_object_get E s a k =
      (case Object_Get E lo v of Completed x \<Rightarrow> try_catch_ok s1 x
       | Caught tc \<Rightarrow> try_catch_err s1 tc)"
    using lo d by (simp add: mv8_object_get_def split: completion.splits)
  show "mv8_object_get E s a k = Some (out, s') \<Longrightarrow> consumes s (desc_handles [k]) s'"
    unfolding eq desc_handles_single
    by (erule outcome_tail [OF r]) (simp add: try_catch_ok_allocates)
  show "engine_reports E \<Longrightarrow> mv8_object_get E s a k \<noteq> None"
    unfolding eq
    by (rule outcome_tail_returns) (use try_catch_ok_Some in \<open>auto simp: engine_reports_def\<close>)
qed

lemma mv8_array_set_consumes:
  assumes "valid_descs s [k]" "handles s a \<noteq> None"
  shows "mv8_array_set E s a i k = Some (out, s') \<Longrightarrow> consumes s (desc_handles [k]) s'"
    and "engine_reports E \<Longrightarrow> mv8_array_set E s a i k \<noteq> None"
proof -
  from Persistent_Get_live [OF assms(2)] obtain lo where lo: "Persistent_Get s a = Some lo" ..
  from desc_to_value_valid [OF valid_descs_single [OF assms(1)]] obtain v s1
    where d: "desc_to_value s k = Some (v, s1)" and r: "releases s (desc_handle k) s1" by blast
  have eq: "mv8_array_set E s a i k =
      (case Object_Set_index E lo i v of Completed x \<Rightarrow> Some (try_catch_ok_noval, s1)
       | Caught tc \<Rightarrow> try_catch_err s1 tc)"
    using lo d by (simp add: mv8_array_set_def split: completion.splits)
  show "mv8_array_set E s a i k = Some (out, s') \<Longrightarrow> consumes s (desc_handles [k]) s'"
    unfolding eq desc_handles_single
    by (erule outcome_tail [OF r]) (simp add: allocates_refl)
  show "engine_reports E \<Longrightarrow> mv8_array_set E s a i k \<noteq> None"
    unfolding eq
    by (rule outcome_tail_returns) (auto simp: engine_reports_def)
qed

lemma mv8_object_remove_consumes:
  assumes "valid_descs s [k]" "handles s a \<noteq> None"
  shows "mv8_object_remove E s a k = Some (out, s') \<Longrightarrow> consumes s (desc_handles [k]) s'"
    and "engine_reports E \<Longrightarrow> mv8_object_remove E s a k \<noteq> None"
proof -
  from Persistent_Get_live [OF assms(2)] obtain lo where lo: "Persistent_Get s a = Some lo" ..
  from desc_to_value_valid [OF valid_descs_single [OF assms(1)]] obtain v s1
    where d: "desc_to_value s k = Some (v, s1)" and r: "releases s (desc_handle k) s1" by blast
  have eq: "mv8_object_remove E s a k =
      (case Object_Delete E lo v of Completed x \<Rightarrow> Some (try_catch_ok_noval, s1)
       | Caught tc \<Rightarrow> try_catch_err s1 tc)"
    using lo d by (simp add: mv8_object_remove_def split: completion.splits)
  show "mv8_object_remove E s a k = Some (out, s') \<Longrightarrow> consumes s (desc_handles [k]) s'"
    unfolding eq desc_handles_single
    by (erule outcome_tail [OF r]) (simp add: allocates_refl)
  show "engine_reports E \<Longrightarrow> mv8_object_remove E s a k \<noteq> None"
    unfolding eq
    by (rule outcome_tail_returns) (auto simp: engine_reports_def)
qed

lemma mv8_object_has_consumes:
  assumes "valid_descs s [k]" "handles s a \<noteq> None"
  shows "mv8_object_has E s a k = Some (out, s') \<Longrightarrow> consumes s (desc_handles [k]) s'"
    and "engine_reports E \<Longrightarrow> mv8_object_has E s a k \<noteq> None"
proof -
  from Persistent_Get_live [OF assms(2)] obtain lo where lo: "Persistent_Get s a = Some lo" ..
  from desc_to_value_valid [OF valid_descs_single [OF assms(1)]] obtain v s1
    where d: "desc_to_value s k = Some (v, s1)" and r: "releases s (desc_handle k) s1" by blast
  have eq: "mv8_object_has E s a k =
      (case Object_Has E lo v of Completed x \<Rightarrow> Some (try_catch_ok_val \<lparr>payload = payload_byte (if x then 1 else 0),
                             tag = tag_value Boolean\<rparr>, s1)
       | Caught tc \<Rightarrow> try_catch_err s1 tc)"
    using lo d by (simp add: mv8_object_has_def split: completion.splits)
  show "mv8_object_has E s a k = Some (out, s') \<Longrightarrow> consumes s (desc_handles [k]) s'"
    unfolding eq desc_handles_single
    by (erule outcome_tail [OF r]) (simp add: allocates_refl)
  show "engine_reports E \<Longrightarrow> mv8_object_has E s a k \<noteq> None"
    unfolding eq
    by (rule outcome_tail_returns) (auto simp: engine_reports_def)
qed

lemma mv8_coerce_number_consumes:
  assumes "valid_descs s [k]"
  shows "mv8_coerce_number E s k = Some (out, s') \<Longrightarrow> consumes s (desc_handles [k]) s'"
    and "engine_reports E \<Longrightarrow> mv8_coerce_number E s k \<noteq> None"
proof -
  from desc_to_value_valid [OF valid_descs_single [OF assms(1)]] obtain v s1
    where d: "desc_to_value s k = Some (v, s1)" and r: "releases s (desc_handle k) s1" by blast
  have eq: "mv8_coerce_number E s k =
      (case Value_ToNumber E v of
         Completed x \<Rightarrow>
           Some (try_catch_ok_val \<lparr>payload = payload_number x, tag = tag_value Number\<rparr>, s1)
       | Caught tc \<Rightarrow> try_catch_err s1 tc)"
    using d by (simp add: mv8_coerce_number_def split: completion.splits)
  show "mv8_coerce_number E s k = Some (out, s') \<Longrightarrow> consumes s (desc_handles [k]) s'"
    unfolding eq desc_handles_single
    by (erule outcome_tail [OF r]) (simp add: allocates_refl)
  show "engine_reports E \<Longrightarrow> mv8_coerce_number E s k \<noteq> None"
    unfolding eq
    by (rule outcome_tail_returns) (auto simp: engine_reports_def)
qed

lemma new_Persistent_tail:
  "(case new_Persistent s1 x of (p, s2) \<Rightarrow> Some (f p, s2)) = Some (out, s') \<Longrightarrow> allocates s1 s'"
  by (auto simp: new_Persistent_def allocates_def)

lemma mv8_coerce_string_consumes:
  assumes "valid_descs s [k]"
  shows "mv8_coerce_string E s k = Some (out, s') \<Longrightarrow> consumes s (desc_handles [k]) s'"
    and "engine_reports E \<Longrightarrow> mv8_coerce_string E s k \<noteq> None"
proof -
  from desc_to_value_valid [OF valid_descs_single [OF assms(1)]] obtain v s1
    where d: "desc_to_value s k = Some (v, s1)" and r: "releases s (desc_handle k) s1" by blast
  have eq: "mv8_coerce_string E s k =
      (case Value_ToString E v of
         Completed x \<Rightarrow>
           (case new_Persistent s1 x of
              (p, s2) \<Rightarrow>
                Some (try_catch_ok_val \<lparr>payload = payload_value_ptr p, tag = tag_value String\<rparr>, s2))
       | Caught tc \<Rightarrow> try_catch_err s1 tc)"
    using d by (simp add: mv8_coerce_string_def split: completion.splits)
  show "mv8_coerce_string E s k = Some (out, s') \<Longrightarrow> consumes s (desc_handles [k]) s'"
    unfolding eq desc_handles_single
    by (erule outcome_tail [OF r]) (erule new_Persistent_tail)
  show "engine_reports E \<Longrightarrow> mv8_coerce_string E s k \<noteq> None"
    unfolding eq
    by (rule outcome_tail_returns) (auto simp: engine_reports_def split: prod.splits)
qed

lemma mv8_coerce_boolean_consumes:
  assumes "valid_descs s [k]"
  shows "mv8_coerce_boolean E s k = Some (b, s') \<Longrightarrow> consumes s (desc_handles [k]) s'"
    and "mv8_coerce_boolean E s k \<noteq> None"
proof -
  from desc_to_value_valid [OF valid_descs_single [OF assms(1)]] obtain v s1
    where d: "desc_to_value s k = Some (v, s1)" and r: "releases s (desc_handle k) s1" by blast
  show "mv8_coerce_boolean E s k = Some (b, s') \<Longrightarrow> consumes s (desc_handles [k]) s'"
    using d r allocates_refl
    by (auto simp: mv8_coerce_boolean_def consumes_def desc_handles_single)
  show "mv8_coerce_boolean E s k \<noteq> None"
    using d by (simp add: mv8_coerce_boolean_def)
qed

lemma mv8_object_set_consumes:
  assumes "valid_descs s [k, d]" "handles s a \<noteq> None"
  shows "mv8_object_set E s a k d = Some (out, s') \<Longrightarrow> consumes s (desc_handles [k, d]) s'"
    and "engine_reports E \<Longrightarrow> mv8_object_set E s a k d \<noteq> None"
proof -
  from Persistent_Get_live [OF assms(2)] obtain lo where lo: "Persistent_Get s a = Some lo" ..
  from desc_to_value_loop_valid [OF assms(1)] obtain vs s2
    where l: "desc_to_value_loop s [k, d] = Some (vs, s2)"
      and r: "releases s (desc_handles [k, d]) s2" by blast
  from l obtain v1 s1 v2 where d1: "desc_to_value s k = Some (v1, s1)"
    and d2: "desc_to_value s1 d = Some (v2, s2)"
    by (auto split: option.splits)
  have eq: "mv8_object_set E s a k d =
      (case Object_Set E lo v1 v2 of Completed x \<Rightarrow> Some (try_catch_ok_noval, s2)
       | Caught tc \<Rightarrow> try_catch_err s2 tc)"
    using lo d1 d2 by (simp add: mv8_object_set_def split: completion.splits)
  show "mv8_object_set E s a k d = Some (out, s') \<Longrightarrow> consumes s (desc_handles [k, d]) s'"
    unfolding eq
    by (erule outcome_tail [OF r]) (simp add: allocates_refl)
  show "engine_reports E \<Longrightarrow> mv8_object_set E s a k d \<noteq> None"
    unfolding eq
    by (rule outcome_tail_returns) (auto simp: engine_reports_def)
qed

lemma mv8_function_call_consumes:
  assumes "valid_descs s (t # ds)" "handles s a \<noteq> None"
  shows "mv8_function_call E s a t ds = Some (out, s') \<Longrightarrow> consumes s (desc_handles (t # ds)) s'"
    and "engine_reports E \<Longrightarrow> mv8_function_call E s a t ds \<noteq> None"
proof -
  from Persistent_Get_live [OF assms(2)] obtain lo where lo: "Persistent_Get s a = Some lo" ..
  from desc_to_value_loop_valid [OF assms(1)] obtain vs s2
    where l: "desc_to_value_loop s (t # ds) = Some (vs, s2)"
      and r: "releases s (desc_handles (t # ds)) s2" by blast
  from l obtain v1 s1 vs' where d1: "desc_to_value s t = Some (v1, s1)"
    and d2: "desc_to_value_loop s1 ds = Some (vs', s2)"
    by (auto split: option.splits)
  have eq: "mv8_function_call E s a t ds =
      (case Function_Call E lo v1 vs' of Completed x \<Rightarrow> try_catch_ok s2 x
       | Caught tc \<Rightarrow> try_catch_err s2 tc)"
    using lo d1 d2 by (simp add: mv8_function_call_def split: completion.splits)
  show "mv8_function_call E s a t ds = Some (out, s') \<Longrightarrow> consumes s (desc_handles (t # ds)) s'"
    unfolding eq
    by (erule outcome_tail [OF r]) (simp add: try_catch_ok_allocates)
  show "engine_reports E \<Longrightarrow> mv8_function_call E s a t ds \<noteq> None"
    unfolding eq
    by (rule outcome_tail_returns) (use try_catch_ok_Some in \<open>auto simp: engine_reports_def\<close>)
qed

lemma mv8_function_call_new_consumes:
  assumes "valid_descs s ds" "handles s a \<noteq> None"
  shows "mv8_function_call_new E s a ds = Some (out, s') \<Longrightarrow> consumes s (desc_handles ds) s'"
    and "engine_reports E \<Longrightarrow> mv8_function_call_new E s a ds \<noteq> None"
proof -
  from Persistent_Get_live [OF assms(2)] obtain lo where lo: "Persistent_Get s a = Some lo" ..
  from desc_to_value_loop_valid [OF assms(1)] obtain vs s2
    where l: "desc_to_value_loop s ds = Some (vs, s2)"
      and r: "releases s (desc_handles ds) s2" by blast
  have eq: "mv8_function_call_new E s a ds =
      (case Function_NewInstance E lo vs of
         Completed x \<Rightarrow>
           (case new_Persistent s2 x of
              (p, s3) \<Rightarrow>
                Some (try_catch_ok_val \<lparr>payload = payload_value_ptr p, tag = tag_value Object\<rparr>, s3))
       | Caught tc \<Rightarrow> try_catch_err s2 tc)"
    using lo l by (simp add: mv8_function_call_new_def split: completion.splits)
  show "mv8_function_call_new E s a ds = Some (out, s') \<Longrightarrow> consumes s (desc_handles ds) s'"
    unfolding eq
    by (erule outcome_tail [OF r]) (erule new_Persistent_tail)
  show "engine_reports E \<Longrightarrow> mv8_function_call_new E s a ds \<noteq> None"
    unfolding eq
    by (rule outcome_tail_returns) (auto simp: engine_reports_def split: prod.splits)
qed

lemma perform_consumes:
  assumes "valid_descs s (consumed op)" "target_live s op" "perform E s op = Some (r, s')"
  shows "consumes s (desc_handles (consumed op)) s'"
proof (cases op)
  case (Array_set a i d)
  with assms mv8_array_set_consumes(1) [of s d a E i] show ?thesis by auto
next
  case (Object_get a k)
  with assms mv8_object_get_consumes(1) [of s k a E] show ?thesis by auto
next
  case (Object_set a k d)
  with assms mv8_object_set_consumes(1) [of s k d a E] show ?thesis by auto
next
  case (Object_remove a k)
  with assms mv8_object_remove_consumes(1) [of s k a E] show ?thesis by auto
next
  case (Object_has a k)
  with assms mv8_object_has_consumes(1) [of s k a E] show ?thesis by auto
next
  case (Coerce_boolean d)
  with assms mv8_coerce_boolean_consumes(1) [of s d E] show ?thesis by auto
next
  case (Coerce_number d)
  with assms mv8_coerce_number_consumes(1) [of s d E] show ?thesis by auto
next
  case (Coerce_string d)
  with assms mv8_coerce_string_consumes(1) [of s d E] show ?thesis by auto
next
  case (Function_call f t ds)
  with assms mv8_function_call_consumes(1) [of s t ds f E] show ?thesis by auto
next
  case (Function_call_new f ds)
  with assms mv8_function_call_new_consumes(1) [of s ds f E] show ?thesis by auto
qed

lemma perform_returns:
  assumes "valid_descs s (consumed op)" "target_live s op" "engine_reports E"
  shows "perform E s op \<noteq> None"
proof (cases op)
  case (Array_set a i d)
  with assms mv8_array_set_consumes(2) [of s d a E i] show ?thesis by auto
next
  case (Object_get a k)
  with assms mv8_object_get_consumes(2) [of s k a E] show ?thesis by auto
next
  case (Object_set a k d)
  with assms mv8_object_set_consumes(2) [of s k d a E] show ?thesis by auto
next
  case (Object_remove a k)
  with assms mv8_object_remove_consumes(2) [of s k a E] show ?thesis by auto
next
  case (Object_has a k)
  with assms mv8_object_has_consumes(2) [of s k a E] show ?thesis by auto
next
  case (Coerce_boolean d)
  with assms mv8_coerce_boolean_consumes(2) [of s d E] show ?thesis by auto
next
  case (Coerce_number d)
  with assms mv8_coerce_number_consumes(2) [of s d E] show ?thesis by auto
next
  case (Coerce_string d)
  with assms mv8_coerce_string_consumes(2) [of s d E] show ?thesis by auto
next
  case (Function_call f t ds)
  with assms mv8_function_call_consumes(2) [of s t ds f E] show ?thesis by auto
next
  case (Function_call_new f ds)
  with assms mv8_function_call_new_consumes(2) [of s ds f E] show ?thesis by auto
qed

lemma valid_desc_handle_live:
  assumes "valid_desc s d" "p \<in> set (desc_handle d)"
  shows "handles s p \<noteq> None"
proof (cases "is_reference_tag (tag d)")
  case True
  then have t: "tag d \<noteq> tag_value Number" "tag d \<noteq> tag_value Date" "tag d \<noteq> tag_value Boolean"
    by (auto simp: is_reference_tag_def)
  show ?thesis
  proof (cases "payload d")
    case (payload_value_ptr q)
    with assms True t show ?thesis by (simp add: valid_desc_def desc_handle_def)
  qed (use assms True in \<open>simp_all add: desc_handle_def\<close>)
next
  case False
  with assms(2) show ?thesis by (simp add: desc_handle_def)
qed

lemma valid_descs_handles:
  assumes "valid_descs s ds"
  shows "distinct (desc_handles ds)" and "\<forall>p \<in> set (desc_handles ds). handles s p \<noteq> None"
proof -
  show "distinct (desc_handles ds)" using assms by (simp add: valid_descs_def)
  show "\<forall>p \<in> set (desc_handles ds). handles s p \<noteq> None"
  proof
    fix p assume "p \<in> set (desc_handles ds)"
    then obtain d where d: "d \<in> set ds" "p \<in> set (desc_handle d)"
      by (auto simp: desc_handles_def)
    with assms have "valid_desc s d" by (simp add: valid_descs_def list_all_iff)
    with d(2) show "handles s p \<noteq> None"
      by (simp add: valid_desc_handle_live)
  qed
qed

lemma count_list_distinct: "distinct xs \<Longrightarrow> x \<in> set xs \<Longrightarrow> count_list xs x = 1"
  by (induction xs) auto

lemma consumes_effect:
  assumes ok: "handle_table_ok s" and c: "consumes s ps s'" and dist: "distinct ps"
    and live: "\<forall>p \<in> set ps. handles s p \<noteq> None"
  shows "released s' = released s @ ps"
    and "\<forall>p \<in> set ps. handles s' p = None"
    and "\<forall>p. p < next_handle s \<and> p \<notin> set ps \<longrightarrow> handles s' p = handles s p"
    and "handle_table_ok s'"
proof -
  from c obtain s1 where r: "releases s ps s1" and a: "allocates s1 s'"
    by (auto simp: consumes_def)
  from live ok have below: "\<forall>p \<in> set ps. p < next_handle s"
    by (auto simp: handle_table_ok_def)
  from live ok have notrel: "set ps \<inter> set (released s) = {}"
    by (auto simp: handle_table_ok_def)
  show "released s' = released s @ ps"
    using r a by (simp add: releases_def allocates_def)
  show "\<forall>p \<in> set ps. handles s' p = None"
    using r a below by (auto simp: releases_def allocates_def)
  show "\<forall>p. p < next_handle s \<and> p \<notin> set ps \<longrightarrow> handles s' p = handles s p"
    using r a by (auto simp: releases_def allocates_def)
  show "handle_table_ok s'"
    using r a ok below notrel dist
    by (auto simp: releases_def allocates_def handle_table_ok_def less_Suc_eq split: if_splits)
qed

text \<open>
  Claim C2. In a state whose handle table is in order, let any of the ten consuming
  operations be called on valid descriptors (each reference descriptor owning a live
  handle of its own) and a live target. If the operation returns, with a success or
  with an exception Outcome, then the handles carried by its reference descriptors
  were released exactly once each: they are appended, in decoding order, to the log of
  releases, which stays free of duplicates, and they are no longer live. The operation
  does return whenever the engine reports its exceptions with a stack trace or a
  message.
\<close>

theorem handles_released_once:
  assumes "handle_table_ok s" "valid_descs s (consumed op)" "target_live s op"
  shows "(\<forall>r s'. perform E s op = Some (r, s') \<longrightarrow>
            released s' = released s @ desc_handles (consumed op) \<and>
            (\<forall>p \<in> set (desc_handles (consumed op)).
               handles s' p = None \<and> count_list (released s') p = 1) \<and>
            distinct (released s') \<and> handle_table_ok s') \<and>
         (engine_reports E \<longrightarrow> perform E s op \<noteq> None)"
proof (intro conjI allI impI ballI)
  fix r s' assume p: "perform E s op = Some (r, s')"
  note c = perform_consumes [OF assms(2,3) p]
  note v = valid_descs_handles [OF assms(2)]
  note e = consumes_effect [OF assms(1) c v]
  show "released s' = released s @ desc_handles (consumed op)" by (rule e(1))
  show ok: "handle_table_ok s'" by (rule e(4))
  then show d: "distinct (released s')" by (simp add: handle_table_ok_def)
  fix q assume q: "q \<in> set (desc_handles (consumed op))"
  with e(2) show "handles s' q = None" by blast
  from q e(1) have "q \<in> set (released s')" by simp
  with d show "count_list (released s') q = 1" by (rule count_list_distinct)
next
  assume "engine_reports E"
  with assms show "perform E s op \<noteq> None" by (simp add: perform_returns)
qed

lemma two_handles_eq:
  "two_handles = mv8_interface_new
     \<lparr>handles := (\<lambda>p. None)(0 \<mapsto> \<lparr>referent = JsObject 0, class_id = 0, weak_parameter = None\<rparr>,
                   Suc 0 \<mapsto> \<lparr>referent = JsString 1, class_id = 0, weak_parameter = None\<rparr>),
      next_handle := 2\<rparr>"
  by (simp add: two_handles_def new_Persistent_def mv8_interface_new_def numeral_2_eq_2)

lemma two_handles_simps:
  "handles two_handles 0 = Some \<lparr>referent = JsObject 0, class_id = 0, weak_parameter = None\<rparr>"
  "handles two_handles (Suc 0) = Some \<lparr>referent = JsString 1, class_id = 0, weak_parameter = None\<rparr>"
  "next_handle two_handles = 2" "released two_handles = []"
  "handle_table_ok two_handles"
  by (auto simp: two_handles_eq mv8_interface_new_def handle_table_ok_def split: if_splits)

lemma throw_42_diagnostics: "has_diagnostics throw_42"
  by (simp add: has_diagnostics_def throw_42_def)

lemma throwing_engine_reports: "has_diagnostics tc \<Longrightarrow> engine_reports (throwing_engine tc)"
  by (simp add: engine_reports_def throwing_engine_def reports_def)

lemma string_desc_valid: "valid_descs two_handles [string_desc (Suc 0)]"
  by (simp add: valid_descs_def valid_desc_def string_desc_def is_reference_tag_def
      two_handles_simps desc_handles_def desc_handle_def)

text \<open>
  Reading a property of the object behind handle 0 by the string key behind handle 1,
  on an engine that throws 42: the key's handle is released on the exception path.
\<close>

theorem handles_released_once_witness:
  "handle_table_ok two_handles \<and>
   valid_descs two_handles (consumed (Object_get 0 (string_desc (Suc 0)))) \<and>
   target_live two_handles (Object_get 0 (string_desc (Suc 0))) \<and>
   engine_reports (throwing_engine throw_42) \<and>
   (\<exists>out s'. perform (throwing_engine throw_42) two_handles (Object_get 0 (string_desc (Suc 0)))
        = Some (Outcome out, s') \<and>
      is_exception out = 1 \<and> released s' = [Suc 0] \<and> handles s' (Suc 0) = None)"
proof -
  let ?op = "Object_get 0 (string_desc (Suc 0))"
  have a: "handle_table_ok two_handles" by (rule two_handles_simps)
  have b: "valid_descs two_handles (consumed ?op)" using string_desc_valid by simp
  have c: "target_live two_handles ?op" by (simp add: two_handles_simps)
  have d: "engine_reports (throwing_engine throw_42)"
    by (rule throwing_engine_reports [OF throw_42_diagnostics])
  have h: "desc_handles (consumed ?op) = [Suc 0]"
    by (simp add: desc_handles_def desc_handle_def string_desc_def is_reference_tag_def)
  from handles_released_once [OF a b c, of "throwing_engine throw_42"] d
  obtain r s' where p: "perform (throwing_engine throw_42) two_handles ?op = Some (r, s')"
    and e: "released s' = released two_handles @ desc_handles (consumed ?op)"
      "\<forall>p \<in> set (desc_handles (consumed ?op)). handles s' p = None"
    by (cases "perform (throwing_engine throw_42) two_handles ?op") auto
  from p obtain out where r: "r = Outcome out"
    and g: "mv8_object_get (throwing_engine throw_42) two_handles 0 (string_desc (Suc 0)) = Some (out, s')"
    by auto
  from g have "\<exists>s1. try_catch_err s1 throw_42 = Some (out, s')"
    by (auto simp: mv8_object_get_def throwing_engine_def split: option.splits)
  then have "is_exception out = 1" using try_catch_err_allocates by blast
  with a b c d p r e h show ?thesis by (simp add: two_handles_simps)
qed

lemma perform_all_balance:
  assumes "handle_table_ok s" "perform_all E s ops = Some s'"
  shows "released s' = released s @ concat (map (\<lambda>op. desc_handles (consumed op)) ops) \<and>
         handle_table_ok s'"
  using assms
proof (induction ops arbitrary: s)
  case Nil
  then show ?case by simp
next
  case (Cons op ops)
  from Cons.prems(2) obtain r s1 where v: "valid_descs s (consumed op)" "target_live s op"
    and p: "perform E s op = Some (r, s1)" and rest: "perform_all E s1 ops = Some s'"
    by (auto split: if_splits option.splits)
  note e = consumes_effect [OF Cons.prems(1) perform_consumes [OF v p] valid_descs_handles [OF v(1)]]
  from Cons.IH [OF e(4) rest] e(1) show ?case by simp
qed

section \<open>Coercions and value-less successes\<close>

text \<open>
  Claim C9. On every valid descriptor \<^verbatim>\<open>mv8_coerce_boolean\<close> returns: its result is the
  byte 1 or 0 given by the engine's boolean conversion of the decoded value, not an
  Outcome, so that no exception can be reported; and the handle of its input was
  released by the decoding. Numeric and string coercion of the same descriptor
  return an Outcome with \<open>is_exception = 1\<close> when the engine's conversion throws (the
  exception coming, as every script exception does, with a stack trace or a message).
\<close>

theorem coerce_boolean_never_throws:
  assumes "valid_desc s desc"
  shows "\<exists>value s1. desc_to_value s desc = Some (value, s1) \<and>
           releases s (desc_handle desc) s1 \<and>
           mv8_coerce_boolean E s desc =
             Some (if Value_BooleanValue E value then 1 else 0, s1) \<and>
           (\<forall>tc. Value_ToNumber E value = Caught tc \<and> has_diagnostics tc \<longrightarrow>
              (\<exists>out s2. mv8_coerce_number E s desc = Some (out, s2) \<and> is_exception out = 1)) \<and>
           (\<forall>tc. Value_ToString E value = Caught tc \<and> has_diagnostics tc \<longrightarrow>
              (\<exists>out s2. mv8_coerce_string E s desc = Some (out, s2) \<and> is_exception out = 1))"
proof -
  from desc_to_value_valid [OF assms] obtain v s1
    where d: "desc_to_value s desc = Some (v, s1)" and r: "releases s (desc_handle desc) s1"
    by blast
  have b: "mv8_coerce_boolean E s desc = Some (if Value_BooleanValue E v then 1 else 0, s1)"
    using d by (simp add: mv8_coerce_boolean_def)
  have n: "\<exists>out s2. mv8_coerce_number E s desc = Some (out, s2) \<and> is_exception out = 1"
    if "Value_ToNumber E v = Caught tc" "has_diagnostics tc" for tc
  proof -
    from try_catch_err_reports [OF that(2)] obtain out s2
      where t: "try_catch_err s1 tc = Some (out, s2)" by blast
    with try_catch_err_allocates [OF t] d that(1) show ?thesis
      by (simp add: mv8_coerce_number_def)
  qed
  have st: "\<exists>out s2. mv8_coerce_string E s desc = Some (out, s2) \<and> is_exception out = 1"
    if "Value_ToString E v = Caught tc" "has_diagnostics tc" for tc
  proof -
    from try_catch_err_reports [OF that(2)] obtain out s2
      where t: "try_catch_err s1 tc = Some (out, s2)" by blast
    with try_catch_err_allocates [OF t] d that(1) show ?thesis
      by (simp add: mv8_coerce_string_def)
  qed
  from d r b n st show ?thesis by blast
qed

text \<open>
  The string behind handle 1, on an engine whose conversions throw 42: the boolean
  coercion returns a byte and releases the handle, the numeric coercion returns an
  exception Outcome.
\<close>

theorem coerce_boolean_never_throws_witness:
  "valid_desc two_handles (string_desc (Suc 0)) \<and>
   (\<exists>s1. mv8_coerce_boolean (throwing_engine throw_42) two_handles (string_desc (Suc 0)) =
            Some (1, s1) \<and> released s1 = [Suc 0] \<and> handles s1 (Suc 0) = None) \<and>
   (\<exists>out s2. mv8_coerce_number (throwing_engine throw_42) two_handles (string_desc (Suc 0)) =
            Some (out, s2) \<and> is_exception out = 1)"
proof -
  have v: "valid_desc two_handles (string_desc (Suc 0))"
    using string_desc_valid by (simp add: valid_descs_def)
  have h: "desc_handle (string_desc (Suc 0)) = [Suc 0]"
    by (simp add: desc_handle_def string_desc_def is_reference_tag_def)
  from coerce_boolean_never_throws [OF v, of "throwing_engine throw_42"] h throw_42_diagnostics v
  show ?thesis
    by (auto simp: throwing_engine_def releases_def two_handles_simps)
qed

text \<open>
  Setting a property of the object behind handle 0, with a number as key and the
  string behind handle 1 as value, on an engine whose calls complete.
\<close>

theorem noval_success_witness:
  "\<exists>s2. mv8_object_set completing_engine two_handles 0
           \<lparr>payload = payload_number (Int32Double 7), tag = tag_value Number\<rparr>
           (string_desc (Suc 0)) = Some (try_catch_ok_noval, s2) \<and>
         next_handle s2 = next_handle two_handles"
proof -
  let ?k = "\<lparr>payload = payload_number (Int32Double 7), tag = tag_value Number\<rparr>"
  have g: "Persistent_Get two_handles 0 = Some (JsObject 0)"
    by (simp add: Persistent_Get_def two_handles_simps)
  have k: "desc_to_value two_handles ?k = Some (JsNumber (Int32Double 7), two_handles)"
    by (simp add: desc_to_value_def)
  obtain s2 where v: "desc_to_value two_handles (string_desc (Suc 0)) = Some (JsString 1, s2)"
    and n: "next_handle s2 = next_handle two_handles"
    by (simp add: desc_to_value_def string_desc_def is_reference_tag_def two_handles_simps
        Reset_delete_def)
  have e: "Object_Set completing_engine (JsObject 0) (JsNumber (Int32Double 7)) (JsString 1) =
      Completed True"
    by (simp add: completing_engine_def)
  from noval_success [of two_handles 0 ?k "string_desc (Suc 0)" completing_engine] g k v e n
  show ?thesis by blast
qed

section \<open>External-memory accounting of native callbacks\<close>

lemma mv8_function_create_eq:
  "mv8_function_create s i f sz = Some (next_handle s, created s i f sz)"
  by (simp add: mv8_function_create_def created_def new_Persistent_def Persistent_Get_def
      SetWrapperClassId_def SetWeak_def AdjustAmountOfExternalAllocatedMemory_def Let_def)

lemma callback_drop_inner_memory:
  assumes "callbacks s c = Some r" "callback_drop_inner g s c = Some s'"
  shows "external_memory s' = external_memory s - callback_size (func_size r)"
  using assms
  by (auto simp: callback_drop_inner_def ClearWeak_def Reset_delete_def
      AdjustAmountOfExternalAllocatedMemory_def Let_def split: option.splits)

lemma callback_drop_inner_created:
  assumes "main_callback_drop_func g \<noteq> None"
  shows "\<exists>s'. callback_drop_inner g (created s i f sz) (next_callback s) = Some s'"
  using assms
  by (auto simp: callback_drop_inner_def created_def ClearWeak_def Reset_delete_def Let_def)

text \<open>
  Claim C7, as stated, fails: registering a closure of serialized size 10 charges 42
  bytes, the size of the record added to the size of the closure.
\<close>

theorem external_memory_counterexample:
  "map_option (external_memory \<circ> snd) (mv8_function_create mv8_interface_new 0 7 10) = Some 42
   \<and> (42 :: 64 word) \<noteq> ucast (10 :: 32 word)"
  by (simp add: mv8_function_create_eq created_def mv8_interface_new_def callback_size_def
      sizeof_RustCallback_def)

text \<open>
  Claim C7, amended. Registering a native callback charges the external-memory
  accounting by the size of the registration record plus the closure's serialized
  size, \<^verbatim>\<open>sizeof(RustCallback) + func_size\<close>, and records the closure's size; finalizing
  a record debits the accounting by the same sum, computed from the recorded size.
  Hence finalizing the record just registered returns the accounting to its value
  before the registration, and the finalization succeeds once the drop dispatcher
  is installed.
\<close>

theorem external_memory_balance:
  "\<exists>p s1 r.
     mv8_function_create s i f sz = Some (p, s1) \<and>
     external_memory s1 = external_memory s + (word_of_nat sizeof_RustCallback + ucast sz) \<and>
     callbacks s1 (next_callback s) = Some r \<and> func_size r = sz \<and>
     (\<forall>g s2 r2 s3.
        callbacks s2 (next_callback s) = Some r2 \<and> func_size r2 = sz \<and>
        callback_drop_inner g s2 (next_callback s) = Some s3 \<longrightarrow>
        external_memory s3 = external_memory s2 - (word_of_nat sizeof_RustCallback + ucast sz)) \<and>
     (\<forall>g. main_callback_drop_func g \<noteq> None \<longrightarrow>
        (\<exists>s3. callback_drop_inner g s1 (next_callback s) = Some s3 \<and>
              external_memory s3 = external_memory s))"
proof -
  let ?s1 = "created s i f sz"
  let ?r = "\<lparr>func = f, func_size = sz, interface = i, value_ptr = Suc (next_handle s)\<rparr>"
  have c: "callbacks ?s1 (next_callback s) = Some ?r" by (simp add: created_def)
  have m: "external_memory ?s1 = external_memory s + callback_size sz" by (simp add: created_def)
  have d: "external_memory s3 = external_memory s2 - callback_size sz"
    if "callbacks s2 (next_callback s) = Some r2" "func_size r2 = sz"
      "callback_drop_inner g s2 (next_callback s) = Some s3" for g s2 r2 s3
    using callback_drop_inner_memory [OF that(1,3)] that(2) by simp
  have e: "\<exists>s3. callback_drop_inner g ?s1 (next_callback s) = Some s3 \<and>
              external_memory s3 = external_memory s"
    if "main_callback_drop_func g \<noteq> None" for g
  proof -
    from callback_drop_inner_created [OF that] obtain s3
      where s3: "callback_drop_inner g ?s1 (next_callback s) = Some s3" by blast
    from callback_drop_inner_memory [OF c s3] m have "external_memory s3 = external_memory s"
      by simp
    with s3 show ?thesis by blast
  qed
  from c m d e mv8_function_create_eq [of s i f sz] show ?thesis
    unfolding callback_size_def by (intro exI [of _ "next_handle s"] exI [of _ ?s1] exI [of _ ?r]) auto
qed

text \<open>A closure of size 16 registered at a new isolate and finalized at once.\<close>

theorem external_memory_balance_witness:
  "main_callback_drop_func (mv8_init (Some second_argument) (Some (\<lambda>p. ()))) \<noteq> None \<and>
   (\<exists>p s1. mv8_function_create mv8_interface_new 0 7 16 = Some (p, s1) \<and>
      external_memory s1 = 48 \<and>
      (\<exists>s3. callback_drop_inner (mv8_init (Some second_argument) (Some (\<lambda>p. ()))) s1 0 = Some s3 \<and>
         external_memory s3 = 0))"
proof -
  let ?g = "mv8_init (Some second_argument) (Some (\<lambda>p. ()))"
  have g: "main_callback_drop_func ?g \<noteq> None" by (simp add: mv8_init_def)
  from external_memory_balance [of mv8_interface_new 0 7 16] g show ?thesis
    by (auto simp: mv8_interface_new_def sizeof_RustCallback_def)
qed

section \<open>The trampoline of native callbacks\<close>

lemma value_to_desc_wrapper_calls:
  "value_to_desc s v = Some (d, s') \<Longrightarrow> wrapper_calls s' = wrapper_calls s \<and> callbacks s' = callbacks s"
  by (cases v) (auto simp: value_to_desc_simps reference_desc_eq)

lemma value_to_desc_loop_total:
  "\<exists>descs s'. value_to_desc_loop s vs = Some (descs, s') \<and> length descs = length vs \<and>
     wrapper_calls s' = wrapper_calls s \<and>
     (\<forall>i < length vs. \<exists>sa sb. value_to_desc sa (vs ! i) = Some (descs ! i, sb))"
proof (induction vs arbitrary: s)
  case Nil
  then show ?case by simp
next
  case (Cons v vs)
  from value_to_desc_not_None [of s v] obtain d s1 where d: "value_to_desc s v = Some (d, s1)"
    by (cases "value_to_desc s v") auto
  from Cons.IH [of s1] obtain descs s2 where l: "value_to_desc_loop s1 vs = Some (descs, s2)"
    and len: "length descs = length vs" and w: "wrapper_calls s2 = wrapper_calls s1"
    and pos: "\<forall>i < length vs. \<exists>sa sb. value_to_desc sa (vs ! i) = Some (descs ! i, sb)"
    by blast
  have "\<exists>sa sb. value_to_desc sa ((v # vs) ! i) = Some ((d # descs) ! i, sb)"
    if "i < length (v # vs)" for i
    using that d pos by (cases i) auto
  with d l len w value_to_desc_wrapper_calls [OF d] show ?case by simp
qed

lemma extends_refl: "extends s s"
  by (simp add: extends_def)

lemma extends_trans: "extends s s1 \<Longrightarrow> extends s1 s2 \<Longrightarrow> extends s s2"
  by (auto simp: extends_def)

lemma desc_handle_simps:
  "desc_handle undefined_desc = []"
  "desc_handle \<lparr>payload = payload_byte b, tag = t\<rparr> = []"
  "desc_handle \<lparr>payload = payload_number n, tag = t\<rparr> = []"
  by (simp_all add: desc_handle_def undefined_desc_def)

lemma value_to_desc_encodes:
  assumes "value_to_desc s v = Some (d, s')"
  shows "encodes s' d v" and "extends s s'"
    and "\<forall>p \<in> set (desc_handle d). next_handle s \<le> p \<and> p < next_handle s'"
proof -
  show "encodes s' d v"
    using assms by (cases v) (auto simp: value_to_desc_simps reference_desc_eq refers_def)
  show "extends s s'"
    using assms by (cases v) (auto simp: value_to_desc_simps reference_desc_eq extends_def)
  show "\<forall>p \<in> set (desc_handle d). next_handle s \<le> p \<and> p < next_handle s'"
  proof (cases "desc_handle d = []")
    case True
    then show ?thesis by simp
  next
    case False
    then have p: "is_reference_tag (tag d)" by (auto simp: desc_handle_def split: if_splits)
    have "desc_handle d = [next_handle s] \<and> next_handle s' = Suc (next_handle s)"
      using assms p
      by (cases v)
        (auto simp: value_to_desc_simps reference_desc_eq desc_handle_def undefined_desc_def
          is_reference_tag_def)
    then show ?thesis by simp
  qed
qed

lemma encodes_extends:
  assumes "encodes s d v" "\<forall>p \<in> set (desc_handle d). p < next_handle s" "extends s s'"
  shows "encodes s' d v"
proof -
  have r: "refers s' d t v" if "refers s d t v" "is_reference_tag (tag_value t)" for t
  proof (cases "payload d")
    case (payload_value_ptr p)
    with that have "tag d = tag_value t"
      "handles s p = Some \<lparr>referent = v, class_id = 0, weak_parameter = None\<rparr>"
      by (simp_all add: refers_def)
    moreover with that(2) payload_value_ptr assms(2) have "p < next_handle s"
      by (simp add: desc_handle_def)
    ultimately show ?thesis using assms(3) payload_value_ptr
      by (simp add: refers_def extends_def)
  qed (use that in \<open>simp_all add: refers_def\<close>)
  show ?thesis
    using assms(1) r by (cases v) (simp_all add: is_reference_tag_def)
qed

lemma value_to_desc_loop_encodes:
  assumes "value_to_desc_loop s vs = Some (ds, s')"
  shows "length ds = length vs \<and> extends s s' \<and>
         (\<forall>i < length vs. encodes s' (ds ! i) (vs ! i)) \<and>
         (\<forall>p \<in> set (desc_handles ds). next_handle s \<le> p \<and> p < next_handle s') \<and>
         sorted_wrt (<) (desc_handles ds)"
  using assms
proof (induction vs arbitrary: s ds)
  case Nil
  then show ?case by (simp add: extends_refl desc_handles_def)
next
  case (Cons v vs)
  from Cons.prems obtain d s1 ds' where d: "value_to_desc s v = Some (d, s1)"
    and l: "value_to_desc_loop s1 vs = Some (ds', s')" and ds: "ds = d # ds'"
    by (auto split: option.splits)
  note e = value_to_desc_encodes [OF d]
  from Cons.IH [OF l] have len: "length ds' = length vs" and ex: "extends s1 s'"
    and enc: "\<forall>i < length vs. encodes s' (ds' ! i) (vs ! i)"
    and rng: "\<forall>p \<in> set (desc_handles ds'). next_handle s1 \<le> p \<and> p < next_handle s'"
    and srt: "sorted_wrt (<) (desc_handles ds')"
    by simp_all
  from e(3) have below: "\<forall>p \<in> set (desc_handle d). p < next_handle s1" by blast
  from encodes_extends [OF e(1) below ex] have head: "encodes s' d v" .
  have pos: "encodes s' ((d # ds') ! i) ((v # vs) ! i)" if "i < length (v # vs)" for i
    using that head enc by (cases i) auto
  have h: "desc_handles (d # ds') = desc_handle d @ desc_handles ds'"
    by (simp add: desc_handles_def)
  from e(2) ex have n: "next_handle s \<le> next_handle s1" "next_handle s1 \<le> next_handle s'"
    by (simp_all add: extends_def)
  have rng': "\<forall>p \<in> set (desc_handles (d # ds')). next_handle s \<le> p \<and> p < next_handle s'"
    using e(3) rng n unfolding h by fastforce
  have "length (desc_handle d) \<le> 1" by (simp add: desc_handle_def split: ValueDescPayload.splits)
  then have "sorted_wrt (<) (desc_handle d)"
    by (cases "desc_handle d") auto
  with srt below rng have srt': "sorted_wrt (<) (desc_handles (d # ds'))"
    unfolding h by (fastforce simp: sorted_wrt_append)
  from len pos rng' srt' extends_trans [OF e(2) ex] ds show ?case by simp
qed


lemma refers_cong: "handles s' = handles s \<Longrightarrow> refers s' d t v = refers s d t v"
  by (cases "payload d") (simp_all add: refers_def)

lemma encodes_cong: "handles s' = handles s \<Longrightarrow> encodes s' d v = encodes s d v"
  by (cases v) (simp_all add: refers_cong [of s' s])

lemma refers_decode:
  assumes "refers s d t v" "is_reference_tag (tag_value t)"
  shows "\<exists>s1. desc_to_value s d = Some (v, s1) \<and> releases s (desc_handle d) s1"
proof (cases "payload d")
  case (payload_value_ptr p)
  with assms(1) have t: "tag d = tag_value t"
    and h: "handles s p = Some \<lparr>referent = v, class_id = 0, weak_parameter = None\<rparr>"
    by (simp_all add: refers_def)
  from assms(2) t have r: "is_reference_tag (tag d)" by simp
  then have n: "tag d \<noteq> tag_value Null" "tag d \<noteq> tag_value Number" "tag d \<noteq> tag_value Boolean"
    "tag d \<noteq> tag_value Date"
    by (auto simp: is_reference_tag_def)
  from r n h payload_value_ptr show ?thesis
    by (auto simp: desc_to_value_def Reset_delete_def desc_handle_def releases_def fun_eq_iff)
qed (use assms(1) in \<open>simp_all add: refers_def\<close>)

lemma encodes_decode:
  assumes "encodes s d v"
  shows "\<exists>v' s1. desc_to_value s d = Some (v', s1) \<and> received v v' \<and>
           releases s (desc_handle d) s1"
proof -
  have ref: ?thesis if "refers s d t v" "is_reference_tag (tag_value t)" "classified v" for t
  proof -
    from refers_decode [OF that(1,2)] obtain s1
      where "desc_to_value s d = Some (v, s1)" "releases s (desc_handle d) s1" by blast
    moreover have "observably_equal v v" by (cases v) simp_all
    ultimately show ?thesis using that(3) by (auto simp: received_def)
  qed
  show ?thesis
  proof (cases v)
    case (JsBoolean b)
    with assms show ?thesis
      by (cases b)
        (simp_all add: desc_to_value_def received_def classified_def releases_def
          desc_handle_simps)
  next
    case (JsString a)
    with assms ref [of String] show ?thesis by (simp add: classified_def is_reference_tag_def)
  next
    case (JsArray a)
    with assms ref [of Array] show ?thesis by (simp add: classified_def is_reference_tag_def)
  next
    case (JsFunction a)
    with assms ref [of Function] show ?thesis by (simp add: classified_def is_reference_tag_def)
  next
    case (JsObject a)
    with assms ref [of Object] show ?thesis by (simp add: classified_def is_reference_tag_def)
  qed (use assms in \<open>simp_all add: desc_to_value_def received_def classified_def releases_def
         desc_handle_simps undefined_desc_def is_reference_tag_def Date_New_def\<close>)
qed

lemma encodes_after_release:
  assumes "encodes s d v" "releases s ps s1" "set (desc_handle d) \<inter> set ps = {}"
  shows "encodes s1 d v"
proof -
  have r: "refers s1 d t v" if "refers s d t v" "is_reference_tag (tag_value t)" for t
  proof (cases "payload d")
    case (payload_value_ptr p)
    with that have "tag d = tag_value t"
      "handles s p = Some \<lparr>referent = v, class_id = 0, weak_parameter = None\<rparr>"
      by (simp_all add: refers_def)
    moreover with that(2) payload_value_ptr assms(3) have "p \<notin> set ps"
      by (simp add: desc_handle_def)
    ultimately show ?thesis using assms(2) payload_value_ptr
      by (simp add: refers_def releases_def)
  qed (use that in \<open>simp_all add: refers_def\<close>)
  show ?thesis
    using assms(1) r by (cases v) (simp_all add: is_reference_tag_def)
qed

lemma desc_to_value_loop_received:
  assumes "length ds = length vs" "\<forall>i < length vs. encodes s (ds ! i) (vs ! i)"
    "distinct (desc_handles ds)"
  shows "\<exists>vs' s'. desc_to_value_loop s ds = Some (vs', s') \<and> list_all2 received vs vs' \<and>
           releases s (desc_handles ds) s'"
  using assms
proof (induction ds arbitrary: vs s)
  case Nil
  then show ?case by (simp add: desc_handles_def releases_def)
next
  case (Cons d ds)
  from Cons.prems(1) obtain v vs0 where vs: "vs = v # vs0" "length ds = length vs0"
    by (cases vs) auto
  have h: "desc_handles (d # ds) = desc_handle d @ desc_handles ds"
    by (simp add: desc_handles_def)
  from Cons.prems(2) vs have "encodes s d v" by auto
  from encodes_decode [OF this] obtain v' s1 where d: "desc_to_value s d = Some (v', s1)"
    and rv: "received v v'" and r: "releases s (desc_handle d) s1" by blast
  have enc: "\<forall>i < length vs0. encodes s1 (ds ! i) (vs0 ! i)"
  proof (intro allI impI)
    fix i assume i: "i < length vs0"
    with Cons.prems(2) vs have e: "encodes s (ds ! i) (vs0 ! i)" by auto
    from i vs(2) have "ds ! i \<in> set ds" by simp
    then have "set (desc_handle (ds ! i)) \<subseteq> set (desc_handles ds)"
      by (auto simp: desc_handles_def)
    with Cons.prems(3) have "set (desc_handle (ds ! i)) \<inter> set (desc_handle d) = {}"
      unfolding h by auto
    with e r show "encodes s1 (ds ! i) (vs0 ! i)" by (rule encodes_after_release)
  qed
  from Cons.prems(3) have "distinct (desc_handles ds)" unfolding h by simp
  from Cons.IH [OF vs(2) enc this] obtain vs1 s'
    where l: "desc_to_value_loop s1 ds = Some (vs1, s')" and rs: "list_all2 received vs0 vs1"
      and r2: "releases s1 (desc_handles ds) s'" by blast
  from d l rv rs vs releases_trans [OF r r2] show ?case unfolding h by simp
qed

lemma sorted_wrt_less_distinct: "sorted_wrt (<) (xs :: nat list) \<Longrightarrow> distinct xs"
  by (induction xs) auto

text \<open>
  What the dispatcher is handed by the trampoline: the encodings of \<^verbatim>\<open>this\<close> and of the
  arguments, position by position, in the state in which it is called.
\<close>

lemma rust_callback_encodes:
  assumes t: "value_to_desc s v = Some (this_desc, s1)"
    and l: "value_to_desc_loop s1 vs = Some (arg_descs, s2)"
    and sc: "handles sc = handles s2"
  shows "length arg_descs = length vs"
    and "encodes sc this_desc v"
    and "\<forall>i < length vs. encodes sc (arg_descs ! i) (vs ! i)"
    and "sorted_wrt (<) (desc_handles (this_desc # arg_descs))"
    and "\<forall>p \<in> set (desc_handles (this_desc # arg_descs)). next_handle s \<le> p"
    and "\<forall>p < next_handle s. handles sc p = handles s p"
    and "wrapper_calls s2 = wrapper_calls s"
    and "\<exists>vs' s'. desc_to_value_loop sc (this_desc # arg_descs) = Some (vs', s') \<and>
           list_all2 received (v # vs) vs'"
proof -
  from t l have all: "value_to_desc_loop s (v # vs) = Some (this_desc # arg_descs, s2)" by simp
  from value_to_desc_loop_encodes [OF all]
  have len: "length (this_desc # arg_descs) = length (v # vs)" and ex: "extends s s2"
    and enc: "\<forall>i < length (v # vs). encodes s2 ((this_desc # arg_descs) ! i) ((v # vs) ! i)"
    and rng: "\<forall>p \<in> set (desc_handles (this_desc # arg_descs)).
                next_handle s \<le> p \<and> p < next_handle s2"
    and srt: "sorted_wrt (<) (desc_handles (this_desc # arg_descs))"
    by blast+
  from enc have enc': "\<forall>i < length (v # vs). encodes sc ((this_desc # arg_descs) ! i) ((v # vs) ! i)"
    by (simp only: encodes_cong [OF sc])
  show "length arg_descs = length vs" using len by simp
  show "encodes sc this_desc v" using enc' by auto
  show "\<forall>i < length vs. encodes sc (arg_descs ! i) (vs ! i)" using enc' by auto
  show "sorted_wrt (<) (desc_handles (this_desc # arg_descs))" by (rule srt)
  show "\<forall>p \<in> set (desc_handles (this_desc # arg_descs)). next_handle s \<le> p" using rng by blast
  show "\<forall>p < next_handle s. handles sc p = handles s p" using ex sc by (simp add: extends_def)
  show "wrapper_calls s2 = wrapper_calls s" using ex by (simp add: extends_def)
  from desc_to_value_loop_received [OF len enc' sorted_wrt_less_distinct [OF srt]]
  show "\<exists>vs' s'. desc_to_value_loop sc (this_desc # arg_descs) = Some (vs', s') \<and>
           list_all2 received (v # vs) vs'" by blast
qed

lemma one_callback_record:
  "callbacks one_callback 0 = Some \<lparr>func = 7, func_size = 16, interface = 0, value_ptr = Suc 0\<rparr>"
  by (simp add: one_callback_def created_def mv8_interface_new_def)

text \<open>
  Claim C6. On a call of a registered callback function, with the dispatcher installed:
  the trampoline encodes \<^verbatim>\<open>this\<close> and then the arguments in call order, which never
  fails; the bridge calls the installed dispatcher exactly once (one entry is added to
  the log of dispatcher calls), with the interface and the closure pointer of the
  record and with these descriptors. In the state in which the dispatcher is called,
  the descriptor of \<^verbatim>\<open>this\<close> and the descriptor at each position are the encodings of
  \<^verbatim>\<open>this\<close> and of the argument at that position: a reference descriptor carries a live
  strong handle to that very argument, the handles are new, pairwise different and
  allocated in call order (\<^verbatim>\<open>this\<close> first), the handles that existed before are
  untouched, and decoding the descriptors in that state gives back \<^verbatim>\<open>this\<close> and the
  arguments (\<^verbatim>\<open>undefined\<close> for a value that the encoding does not classify). The result
  of the call is the decoding of the Outcome's descriptor, thrown when \<open>is_exception\<close>
  is nonzero and set as the return value otherwise.
\<close>

theorem trampoline:
  assumes "callbacks s (Data args) = Some callback"
    and "main_callback_wrapper_func g = Some wrapper"
  shows "\<exists>this_desc s1 arg_descs s2 sc result s3.
     value_to_desc s (This args) = Some (this_desc, s1) \<and>
     value_to_desc_loop s1 (Arguments args) = Some (arg_descs, s2) \<and>
     length arg_descs = length (Arguments args) \<and>
     (\<forall>i < length (Arguments args).
        \<exists>sa sb. value_to_desc sa (Arguments args ! i) = Some (arg_descs ! i, sb)) \<and>
     sc = s2\<lparr>wrapper_calls := wrapper_calls s @
                [(interface callback, func callback, this_desc, arg_descs)]\<rparr> \<and>
     encodes sc this_desc (This args) \<and>
     (\<forall>i < length (Arguments args). encodes sc (arg_descs ! i) (Arguments args ! i)) \<and>
     sorted_wrt (<) (desc_handles (this_desc # arg_descs)) \<and>
     (\<forall>p \<in> set (desc_handles (this_desc # arg_descs)). next_handle s \<le> p) \<and>
     (\<forall>p < next_handle s. handles sc p = handles s p) \<and>
     (\<exists>vs' s'. desc_to_value_loop sc (this_desc # arg_descs) = Some (vs', s') \<and>
        list_all2 received (This args # Arguments args) vs') \<and>
     wrapper sc (interface callback) (func callback) this_desc arg_descs = (result, s3) \<and>
     rust_callback g s args =
       (case desc_to_value s3 (value_desc result) of
          None \<Rightarrow> None
        | Some (value, s4) \<Rightarrow>
            Some (if is_exception result \<noteq> 0 then ThrowException value
                  else ReturnValue_Set value, s4))"
proof -
  from value_to_desc_not_None [of s "This args"] obtain this_desc s1
    where t: "value_to_desc s (This args) = Some (this_desc, s1)"
    by (cases "value_to_desc s (This args)") auto
  from value_to_desc_loop_total [of s1 "Arguments args"] obtain arg_descs s2
    where l: "value_to_desc_loop s1 (Arguments args) = Some (arg_descs, s2)"
      and pos: "\<forall>i < length (Arguments args).
        \<exists>sa sb. value_to_desc sa (Arguments args ! i) = Some (arg_descs ! i, sb)"
    by blast
  let ?sc = "s2\<lparr>wrapper_calls := wrapper_calls s @
                [(interface callback, func callback, this_desc, arg_descs)]\<rparr>"
  have h: "handles ?sc = handles s2" by simp
  note e = rust_callback_encodes [OF t l h]
  obtain result s3
    where r: "wrapper ?sc (interface callback) (func callback) this_desc arg_descs = (result, s3)"
    by (cases "wrapper ?sc (interface callback) (func callback) this_desc arg_descs") auto
  have "rust_callback g s args =
       (case desc_to_value s3 (value_desc result) of
          None \<Rightarrow> None
        | Some (value, s4) \<Rightarrow>
            Some (if is_exception result \<noteq> 0 then ThrowException value
                  else ReturnValue_Set value, s4))"
    using assms t l r e(7) by (simp add: rust_callback_def split: option.splits)
  with t l pos r e(1-6,8) show ?thesis
    by (intro exI [of _ this_desc] exI [of _ s1] exI [of _ arg_descs] exI [of _ s2]
        exI [of _ ?sc] exI [of _ result] exI [of _ s3] conjI) (assumption | rule refl)+
qed

text \<open>
  The registered closure returns its first argument: called with the strings at the
  addresses 5 and 6, the dispatcher is handed descriptors with the new handles 2 and
  3, which refer to the first and to the second string, and the call returns the
  first string.
\<close>

theorem trampoline_witness:
  "callbacks one_callback 0 =
     Some \<lparr>func = 7, func_size = 16, interface = 0, value_ptr = Suc 0\<rparr> \<and>
   main_callback_wrapper_func (mv8_init (Some first_argument) (Some (\<lambda>p. ()))) =
     Some first_argument \<and>
   (\<exists>s4. rust_callback (mv8_init (Some first_argument) (Some (\<lambda>p. ()))) one_callback
      \<lparr>Data = 0, This = JsUndefined, Arguments = [JsString 5, JsString 6]\<rparr>
      = Some (ReturnValue_Set (JsString 5), s4) \<and>
     wrapper_calls s4 = [(0, 7, undefined_desc, [string_desc 2, string_desc 3])] \<and>
     handles s4 2 = None \<and>
     handles s4 3 = Some \<lparr>referent = JsString 6, class_id = 0, weak_parameter = None\<rparr>)"
proof -
  let ?g = "mv8_init (Some first_argument) (Some (\<lambda>p. ()))"
  let ?args = "\<lparr>Data = 0, This = JsUndefined, Arguments = [JsString 5, JsString 6]\<rparr>"
  have c: "callbacks one_callback (Data ?args) =
     Some \<lparr>func = 7, func_size = 16, interface = 0, value_ptr = Suc 0\<rparr>"
    using one_callback_record by simp
  have w: "main_callback_wrapper_func ?g = Some first_argument" by (simp add: mv8_init_def)
  have n: "next_handle one_callback = 2" "wrapper_calls one_callback = []"
    by (simp_all add: one_callback_def created_def mv8_interface_new_def)
  from trampoline [OF c w] obtain this_desc s1 arg_descs s2 sc result s3
    where t: "value_to_desc one_callback (This ?args) = Some (this_desc, s1)"
      and l: "value_to_desc_loop s1 (Arguments ?args) = Some (arg_descs, s2)"
      and sc: "sc = s2\<lparr>wrapper_calls := wrapper_calls one_callback @
                [(interface \<lparr>func = 7, func_size = 16, interface = 0, value_ptr = Suc 0\<rparr>,
                  func \<lparr>func = 7, func_size = 16, interface = 0, value_ptr = Suc 0\<rparr>,
                  this_desc, arg_descs)]\<rparr>"
      and r: "first_argument sc
                (interface \<lparr>func = 7, func_size = 16, interface = 0, value_ptr = Suc 0\<rparr>)
                (func \<lparr>func = 7, func_size = 16, interface = 0, value_ptr = Suc 0\<rparr>)
                this_desc arg_descs = (result, s3)"
      and k: "rust_callback ?g one_callback ?args =
       (case desc_to_value s3 (value_desc result) of
          None \<Rightarrow> None
        | Some (value, s4) \<Rightarrow>
            Some (if is_exception result \<noteq> 0 then ThrowException value
                  else ReturnValue_Set value, s4))"
    by (elim exE conjE) (rule that; assumption)
  from t have t': "this_desc = undefined_desc" "s1 = one_callback"
    by (simp_all add: value_to_desc_simps)
  from l t' n have l': "arg_descs = [string_desc 2, string_desc 3]"
    and s2: "handles s2 2 = Some \<lparr>referent = JsString 5, class_id = 0, weak_parameter = None\<rparr>"
      "handles s2 3 = Some \<lparr>referent = JsString 6, class_id = 0, weak_parameter = None\<rparr>"
      "wrapper_calls s2 = []"
    by (auto simp: value_to_desc_simps reference_desc_eq string_desc_def numeral_3_eq_3)
  from r sc l' have r': "result = \<lparr>value_desc = string_desc 2, is_exception = 0\<rparr>" "s3 = sc"
    by (simp_all add: first_argument_def)
  from sc s2 n t' l' have sc': "handles sc = handles s2"
    "wrapper_calls sc = [(0, 7, undefined_desc, [string_desc 2, string_desc 3])]"
    by simp_all
  have "desc_to_value sc (string_desc 2) =
      Some (JsString 5, sc\<lparr>handles := (handles sc)(2 := None), released := released sc @ [2]\<rparr>)"
    using sc' s2
    by (simp add: desc_to_value_def string_desc_def is_reference_tag_def Reset_delete_def)
  with k r' have "rust_callback ?g one_callback ?args =
      Some (ReturnValue_Set (JsString 5),
            sc\<lparr>handles := (handles sc)(2 := None), released := released sc @ [2]\<rparr>)"
    by simp
  with c w sc' s2 show ?thesis by simp
qed

section \<open>Finalization of native callbacks\<close>

lemma GetPrivate_cong: "private_slot s' = private_slot s \<Longrightarrow> GetPrivate s' v = GetPrivate s v"
  by (cases v) simp_all

lemma RUST_CALLBACK_CLASS_ID_nonzero: "RUST_CALLBACK_CLASS_ID \<noteq> 0"
  by (simp add: RUST_CALLBACK_CLASS_ID_def)

lemma cb_inv_record:
  assumes "cb_inv regs s" "callbacks s c = Some r"
  shows "c < length regs" "func r = regs ! c"
    "\<exists>h. handles s (value_ptr r) = Some h \<and> class_id h = RUST_CALLBACK_CLASS_ID \<and>
         weak_parameter h = Some c \<and> GetPrivate s (referent h) = Some c"
  using assms unfolding cb_inv_def by blast+

lemma cb_inv_handle:
  assumes "cb_inv regs s" "handles s p = Some h" "class_id h \<noteq> 0 \<or> weak_parameter h \<noteq> None"
  shows "\<exists>c r. callbacks s c = Some r \<and> value_ptr r = p \<and> class_id h = RUST_CALLBACK_CLASS_ID \<and>
           weak_parameter h = Some c \<and> GetPrivate s (referent h) = Some c"
proof -
  from assms obtain c r where c: "callbacks s c = Some r" "value_ptr r = p"
    unfolding cb_inv_def by blast
  from cb_inv_record(3) [OF assms(1) c(1)] c(2) assms(2) c(1) show ?thesis by auto
qed

lemma callback_drop_inner_eq:
  assumes "cb_inv regs s" "callbacks s c = Some r" "main_callback_drop_func g \<noteq> None"
  shows "callback_drop_inner g s c = Some (finalize s c r)"
proof -
  from cb_inv_record(3) [OF assms(1,2)] obtain h where "handles s (value_ptr r) = Some h" by blast
  with assms(2,3) show ?thesis
    by (auto simp: callback_drop_inner_def ClearWeak_def Reset_delete_def finalize_def Let_def
        AdjustAmountOfExternalAllocatedMemory_def)
qed

lemma cb_inv_finalize:
  assumes inv: "cb_inv regs s" and c: "callbacks s c = Some r"
  shows "cb_inv regs (finalize s c r)"
proof -
  let ?s = "finalize s c r"
  note rec = cb_inv_record [OF inv]
  have inj: "c' = c" if "callbacks s c' = Some r'" "value_ptr r' = value_ptr r" for c' r'
    using rec(3) [OF that(1)] rec(3) [OF c] that(2) by auto
  have 1: "\<forall>p h. handles ?s p = Some h \<longrightarrow> p < next_handle ?s"
    using inv by (auto simp: cb_inv_def finalize_def split: if_splits)
  have 2: "\<forall>a c. private_slot ?s a = Some c \<longrightarrow> a < next_object ?s"
    using inv by (simp add: cb_inv_def finalize_def)
  have 3: "next_callback ?s = length regs"
    using inv by (simp add: cb_inv_def finalize_def)
  have 4: "\<forall>c' r'. callbacks ?s c' = Some r' \<longrightarrow>
        c' < length regs \<and> func r' = regs ! c' \<and>
        (\<exists>h. handles ?s (value_ptr r') = Some h \<and> class_id h = RUST_CALLBACK_CLASS_ID \<and>
             weak_parameter h = Some c' \<and> GetPrivate ?s (referent h) = Some c')"
  proof (intro allI impI)
    fix c' r' assume a: "callbacks ?s c' = Some r'"
    then have ne: "c' \<noteq> c" and old: "callbacks s c' = Some r'"
      by (auto simp: finalize_def split: if_splits)
    from inj [OF old] ne have "value_ptr r' \<noteq> value_ptr r" by auto
    moreover have "GetPrivate ?s v = GetPrivate s v" for v
      by (rule GetPrivate_cong) (simp add: finalize_def)
    ultimately show "c' < length regs \<and> func r' = regs ! c' \<and>
        (\<exists>h. handles ?s (value_ptr r') = Some h \<and> class_id h = RUST_CALLBACK_CLASS_ID \<and>
             weak_parameter h = Some c' \<and> GetPrivate ?s (referent h) = Some c')"
      using rec [OF old] by (simp add: finalize_def)
  qed
  have 5: "\<forall>p h. handles ?s p = Some h \<longrightarrow> class_id h \<noteq> 0 \<or> weak_parameter h \<noteq> None \<longrightarrow>
        (\<exists>c' r'. callbacks ?s c' = Some r' \<and> value_ptr r' = p)"
  proof (intro allI impI)
    fix p h assume a: "handles ?s p = Some h" "class_id h \<noteq> 0 \<or> weak_parameter h \<noteq> None"
    then have ne: "p \<noteq> value_ptr r" and old: "handles s p = Some h"
      by (auto simp: finalize_def split: if_splits)
    from cb_inv_handle [OF inv old a(2)] obtain c' r'
      where c': "callbacks s c' = Some r'" "value_ptr r' = p" by blast
    with ne c have "c' \<noteq> c" by auto
    with c' show "\<exists>c' r'. callbacks ?s c' = Some r' \<and> value_ptr r' = p"
      by (auto simp: finalize_def)
  qed
  from inv c have notin: "c \<notin> set (finalized s)" by (auto simp: cb_inv_def)
  have 6: "distinct (finalized ?s)"
    using inv notin by (simp add: cb_inv_def finalize_def)
  have 7: "set (finalized ?s) = {c'. c' < length regs \<and> callbacks ?s c' = None}"
    using inv rec(1) [OF c] by (auto simp: cb_inv_def finalize_def)
  have 8: "drop_calls ?s = map (nth regs) (finalized ?s)"
    using inv rec(2) [OF c] by (simp add: cb_inv_def finalize_def)
  from 1 2 3 4 5 6 7 8 show ?thesis unfolding cb_inv_def by blast
qed

lemma finalize_fields:
  "handles (finalize s c r) = (handles s)(value_ptr r := None)"
  "next_handle (finalize s c r) = next_handle s"
  "finalized (finalize s c r) = finalized s @ [c]"
  by (simp_all add: finalize_def)

lemma cb_inv_initial: "cb_inv [] mv8_interface_new"
  by (simp add: cb_inv_def mv8_interface_new_def)

lemma cb_inv_created:
  assumes inv: "cb_inv regs s"
  shows "cb_inv (regs @ [f]) (created s i f sz)"
proof -
  let ?s = "created s i f sz"
  note rec = cb_inv_record [OF inv]
  have hb: "p < next_handle s" if "handles s p = Some h" for p h
    using inv that by (auto simp: cb_inv_def)
  have pb: "a < next_object s" if "private_slot s a = Some c" for a c
    using inv that by (auto simp: cb_inv_def)
  have nc: "next_callback s = length regs" using inv by (simp add: cb_inv_def)
  have fresh: "callbacks s (length regs) = None"
    using rec(1) [of "length regs"] by (cases "callbacks s (length regs)") auto
  have gp: "GetPrivate ?s v = Some c" if "GetPrivate s v = Some c" for v c
    using that pb by (cases v) (auto simp: created_def)
  have 1: "\<forall>p h. handles ?s p = Some h \<longrightarrow> p < next_handle ?s"
    using hb by (auto simp: created_def less_Suc_eq split: if_splits)
  have 2: "\<forall>a c. private_slot ?s a = Some c \<longrightarrow> a < next_object ?s"
    using pb by (auto simp: created_def less_Suc_eq split: if_splits)
  have 3: "next_callback ?s = length (regs @ [f])"
    using nc by (simp add: created_def)
  have 4: "\<forall>c r. callbacks ?s c = Some r \<longrightarrow>
        c < length (regs @ [f]) \<and> func r = (regs @ [f]) ! c \<and>
        (\<exists>h. handles ?s (value_ptr r) = Some h \<and> class_id h = RUST_CALLBACK_CLASS_ID \<and>
             weak_parameter h = Some c \<and> GetPrivate ?s (referent h) = Some c)"
  proof (intro allI impI)
    fix c r assume a: "callbacks ?s c = Some r"
    show "c < length (regs @ [f]) \<and> func r = (regs @ [f]) ! c \<and>
        (\<exists>h. handles ?s (value_ptr r) = Some h \<and> class_id h = RUST_CALLBACK_CLASS_ID \<and>
             weak_parameter h = Some c \<and> GetPrivate ?s (referent h) = Some c)"
    proof (cases "c = length regs")
      case True
      with a nc show ?thesis by (auto simp: created_def)
    next
      case False
      with a nc have old: "callbacks s c = Some r" by (simp add: created_def)
      from rec(3) [OF old] obtain h where h: "handles s (value_ptr r) = Some h"
        "class_id h = RUST_CALLBACK_CLASS_ID" "weak_parameter h = Some c"
        "GetPrivate s (referent h) = Some c" by blast
      from hb [OF h(1)] h(1) have "handles ?s (value_ptr r) = Some h"
        by (simp add: created_def)
      with h gp rec(1,2) [OF old] show ?thesis by (auto simp: nth_append)
    qed
  qed
  have 5: "\<forall>p h. handles ?s p = Some h \<longrightarrow> class_id h \<noteq> 0 \<or> weak_parameter h \<noteq> None \<longrightarrow>
        (\<exists>c r. callbacks ?s c = Some r \<and> value_ptr r = p)"
  proof (intro allI impI)
    fix p h assume a: "handles ?s p = Some h" "class_id h \<noteq> 0 \<or> weak_parameter h \<noteq> None"
    show "\<exists>c r. callbacks ?s c = Some r \<and> value_ptr r = p"
    proof (cases "p = Suc (next_handle s)")
      case True
      then have "callbacks ?s (next_callback s) =
          Some \<lparr>func = f, func_size = sz, interface = i, value_ptr = p\<rparr>"
        by (simp add: created_def)
      then show ?thesis by force
    next
      case False
      with a have old: "handles s p = Some h"
        by (auto simp: created_def split: if_splits)
      from cb_inv_handle [OF inv old a(2)] obtain c r
        where c: "callbacks s c = Some r" "value_ptr r = p" by blast
      with fresh nc have "callbacks ?s c = Some r" by (auto simp: created_def)
      with c show ?thesis by blast
    qed
  qed
  have 6: "distinct (finalized ?s)"
    using inv by (simp add: cb_inv_def created_def)
  have 7: "set (finalized ?s) = {c. c < length (regs @ [f]) \<and> callbacks ?s c = None}"
    using inv nc by (auto simp: cb_inv_def created_def less_Suc_eq)
  have "map (nth (regs @ [f])) (finalized s) = map (nth regs) (finalized s)"
    using inv by (auto simp: cb_inv_def nth_append)
  then have 8: "drop_calls ?s = map (nth (regs @ [f])) (finalized ?s)"
    using inv by (simp add: cb_inv_def created_def)
  from 1 2 3 4 5 6 7 8 show ?thesis unfolding cb_inv_def by blast
qed

lemma cb_inv_acquire:
  assumes inv: "cb_inv regs s"
  shows "cb_inv regs (snd (new_Persistent s v))"
proof -
  let ?s = "snd (new_Persistent s v)"
  have hb: "p < next_handle s" if "handles s p = Some h" for p h
    using inv that by (auto simp: cb_inv_def)
  have f: "private_slot ?s = private_slot s" "next_object ?s = next_object s"
    "next_callback ?s = next_callback s" "callbacks ?s = callbacks s"
    "finalized ?s = finalized s" "drop_calls ?s = drop_calls s"
    "next_handle ?s = Suc (next_handle s)"
    "handles ?s = (handles s)(next_handle s \<mapsto> \<lparr>referent = v, class_id = 0, weak_parameter = None\<rparr>)"
    by (simp_all add: new_Persistent_def)
  have gp: "GetPrivate ?s w = GetPrivate s w" for w
    by (rule GetPrivate_cong) (rule f)
  have 1: "\<forall>p h. handles ?s p = Some h \<longrightarrow> p < next_handle ?s"
    using hb by (auto simp: f less_Suc_eq split: if_splits)
  have 4: "\<forall>c r. callbacks ?s c = Some r \<longrightarrow>
        c < length regs \<and> func r = regs ! c \<and>
        (\<exists>h. handles ?s (value_ptr r) = Some h \<and> class_id h = RUST_CALLBACK_CLASS_ID \<and>
             weak_parameter h = Some c \<and> GetPrivate ?s (referent h) = Some c)"
  proof (intro allI impI)
    fix c r assume "callbacks ?s c = Some r"
    then have old: "callbacks s c = Some r" by (simp add: f)
    from cb_inv_record(3) [OF inv old] obtain h where h: "handles s (value_ptr r) = Some h"
        "class_id h = RUST_CALLBACK_CLASS_ID" "weak_parameter h = Some c"
        "GetPrivate s (referent h) = Some c" by blast
    from hb [OF h(1)] h(1) have "handles ?s (value_ptr r) = Some h" by (simp add: f)
    with h gp cb_inv_record(1,2) [OF inv old]
    show "c < length regs \<and> func r = regs ! c \<and>
        (\<exists>h. handles ?s (value_ptr r) = Some h \<and> class_id h = RUST_CALLBACK_CLASS_ID \<and>
             weak_parameter h = Some c \<and> GetPrivate ?s (referent h) = Some c)" by auto
  qed
  have 5: "\<forall>p h. handles ?s p = Some h \<longrightarrow> class_id h \<noteq> 0 \<or> weak_parameter h \<noteq> None \<longrightarrow>
        (\<exists>c r. callbacks ?s c = Some r \<and> value_ptr r = p)"
  proof (intro allI impI)
    fix p h assume a: "handles ?s p = Some h" "class_id h \<noteq> 0 \<or> weak_parameter h \<noteq> None"
    then have old: "handles s p = Some h" by (auto simp: f split: if_splits)
    from cb_inv_handle [OF inv old a(2)] show "\<exists>c r. callbacks ?s c = Some r \<and> value_ptr r = p"
      by (auto simp: f)
  qed
  from inv 1 4 5 show ?thesis unfolding cb_inv_def f by blast
qed

lemma cb_inv_release:
  assumes inv: "cb_inv regs s" and h: "handles s p = Some h" "class_id h = 0"
  shows "\<exists>s'. mv8_value_ptr_drop s p = Some s' \<and> cb_inv regs s' \<and> finalized s' = finalized s"
proof -
  let ?s = "s\<lparr>handles := (handles s)(p := None), released := released s @ [p]\<rparr>"
  have d: "mv8_value_ptr_drop s p = Some ?s"
    using h by (simp add: mv8_value_ptr_drop_def Reset_delete_def)
  have gp: "GetPrivate ?s w = GetPrivate s w" for w
    by (rule GetPrivate_cong) simp
  have 1: "\<forall>p h. handles ?s p = Some h \<longrightarrow> p < next_handle ?s"
    using inv by (auto simp: cb_inv_def split: if_splits)
  have 4: "\<forall>c r. callbacks ?s c = Some r \<longrightarrow>
        c < length regs \<and> func r = regs ! c \<and>
        (\<exists>h. handles ?s (value_ptr r) = Some h \<and> class_id h = RUST_CALLBACK_CLASS_ID \<and>
             weak_parameter h = Some c \<and> GetPrivate ?s (referent h) = Some c)"
  proof (intro allI impI)
    fix c r assume "callbacks ?s c = Some r"
    then have old: "callbacks s c = Some r" by simp
    from cb_inv_record(3) [OF inv old] obtain h' where h': "handles s (value_ptr r) = Some h'"
        "class_id h' = RUST_CALLBACK_CLASS_ID" "weak_parameter h' = Some c"
        "GetPrivate s (referent h') = Some c" by blast
    with h RUST_CALLBACK_CLASS_ID_nonzero have "value_ptr r \<noteq> p" by auto
    with h' gp cb_inv_record(1,2) [OF inv old]
    show "c < length regs \<and> func r = regs ! c \<and>
        (\<exists>h. handles ?s (value_ptr r) = Some h \<and> class_id h = RUST_CALLBACK_CLASS_ID \<and>
             weak_parameter h = Some c \<and> GetPrivate ?s (referent h) = Some c)" by auto
  qed
  have 5: "\<forall>q h. handles ?s q = Some h \<longrightarrow> class_id h \<noteq> 0 \<or> weak_parameter h \<noteq> None \<longrightarrow>
        (\<exists>c r. callbacks ?s c = Some r \<and> value_ptr r = q)"
  proof (intro allI impI)
    fix q h' assume a: "handles ?s q = Some h'" "class_id h' \<noteq> 0 \<or> weak_parameter h' \<noteq> None"
    then have old: "handles s q = Some h'" by (auto split: if_splits)
    from cb_inv_handle [OF inv old a(2)] show "\<exists>c r. callbacks ?s c = Some r \<and> value_ptr r = q"
      by auto
  qed
  have "cb_inv regs ?s"
    using inv 1 4 5 unfolding cb_inv_def by simp
  with d show ?thesis by auto
qed

lemma cb_inv_collect:
  assumes inv: "cb_inv regs s" and g: "main_callback_drop_func g \<noteq> None"
  shows "\<exists>s'. weak_collection g s p = Some s' \<and> cb_inv regs s'"
proof (cases "handles s p")
  case None
  with inv show ?thesis by (simp add: weak_collection_def)
next
  case (Some h)
  show ?thesis
  proof (cases "weak_parameter h")
    case None
    with Some inv show ?thesis by (simp add: weak_collection_def)
  next
    case (Some c)
    with \<open>handles s p = Some h\<close> cb_inv_handle [OF inv, of p h]
    obtain r where r: "callbacks s c = Some r" by auto
    from callback_drop_inner_eq [OF inv r g] cb_inv_finalize [OF inv r] Some \<open>handles s p = Some h\<close>
    show ?thesis by (simp add: weak_collection_def callback_drop_def)
  qed
qed

lemma step_inv:
  assumes inv: "cb_inv regs s" and g: "main_callback_drop_func g \<noteq> None"
    and st: "step g s e = Some s'"
  shows "cb_inv (regs @ registered [e]) s'" and "\<not> is_Collect e \<Longrightarrow> finalized s' = finalized s"
proof -
  show "cb_inv (regs @ registered [e]) s'"
  proof (cases e)
    case (Register i f sz)
    with st cb_inv_created [OF inv, of f i sz] show ?thesis
      by (simp add: mv8_function_create_eq)
  next
    case (Collect p)
    with st cb_inv_collect [OF inv g, of p] show ?thesis by auto
  next
    case (Acquire v)
    with st cb_inv_acquire [OF inv, of v] show ?thesis by auto
  next
    case (Release p)
    with st obtain h where h: "handles s p = Some h" "class_id h = 0"
      and d: "mv8_value_ptr_drop s p = Some s'"
      by (auto split: option.splits if_splits)
    from cb_inv_release [OF inv h] d Release show ?thesis by auto
  qed
  show "finalized s' = finalized s" if "\<not> is_Collect e"
  proof (cases e)
    case (Register i f sz)
    with st show ?thesis by (auto simp: mv8_function_create_eq created_def)
  next
    case (Collect p)
    with that show ?thesis by simp
  next
    case (Acquire v)
    with st show ?thesis by (auto simp: new_Persistent_def)
  next
    case (Release p)
    with st obtain h where h: "handles s p = Some h" "class_id h = 0"
      and d: "mv8_value_ptr_drop s p = Some s'"
      by (auto split: option.splits if_splits)
    from cb_inv_release [OF inv h] d show ?thesis by auto
  qed
qed

lemma registered_append: "registered (es @ fs) = registered es @ registered fs"
  by (induction es rule: registered.induct) simp_all

lemma run_inv:
  assumes "cb_inv regs s" "main_callback_drop_func g \<noteq> None" "run g s es = Some s'"
  shows "cb_inv (regs @ registered es) s' \<and>
         ((\<forall>e \<in> set es. \<not> is_Collect e) \<longrightarrow> finalized s' = finalized s)"
  using assms
proof (induction es arbitrary: regs s)
  case Nil
  then show ?case by simp
next
  case (Cons e es)
  from Cons.prems(3) obtain s1 where s1: "step g s e = Some s1" and r: "run g s1 es = Some s'"
    by (auto split: option.splits)
  note st = step_inv [OF Cons.prems(1,2) s1]
  from Cons.IH [OF st(1) Cons.prems(2) r] st(2)
  have "cb_inv ((regs @ registered [e]) @ registered es) s'"
    and "(\<forall>e \<in> set (e # es). \<not> is_Collect e) \<longrightarrow> finalized s' = finalized s"
    by auto
  moreover have "(regs @ registered [e]) @ registered es = regs @ registered (e # es)"
    using registered_append [of "[e]" es] by simp
  ultimately show ?case by simp
qed

lemma visit_handles_inv:
  assumes "cb_inv regs s" "main_callback_drop_func g \<noteq> None"
  shows "\<exists>s'. visit_handles g s ps = Some s' \<and> cb_inv regs s' \<and>
           next_handle s' = next_handle s \<and>
           (\<forall>p h. handles s' p = Some h \<longrightarrow> handles s p = Some h) \<and>
           (\<forall>p \<in> set ps. \<forall>h. handles s' p = Some h \<longrightarrow> class_id h = 0) \<and>
           (\<exists>rest. finalized s' = finalized s @ rest)"
  using assms
proof (induction ps arbitrary: s)
  case Nil
  then show ?case by simp
next
  case (Cons p ps)
  note inv = Cons.prems(1) and g = Cons.prems(2)
  show ?case
  proof (cases "\<exists>h. handles s p = Some h \<and> class_id h \<noteq> 0")
    case False
    then have eq: "visit_handles g s (p # ps) = visit_handles g s ps"
      by (cases "handles s p") auto
    from Cons.IH [OF inv g] obtain s' where s': "visit_handles g s ps = Some s'"
      "cb_inv regs s'" "next_handle s' = next_handle s"
      "\<forall>p h. handles s' p = Some h \<longrightarrow> handles s p = Some h"
      "\<forall>p \<in> set ps. \<forall>h. handles s' p = Some h \<longrightarrow> class_id h = 0"
      "\<exists>rest. finalized s' = finalized s @ rest" by blast
    from False s'(4) have "\<forall>h. handles s' p = Some h \<longrightarrow> class_id h = 0" by blast
    with s' eq show ?thesis by auto
  next
    case True
    then obtain h where h: "handles s p = Some h" "class_id h \<noteq> 0" by blast
    from cb_inv_handle [OF inv h(1)] h(2) obtain c r where c: "callbacks s c = Some r"
      "value_ptr r = p" "class_id h = RUST_CALLBACK_CLASS_ID" "GetPrivate s (referent h) = Some c"
      by blast
    let ?s1 = "finalize s c r"
    have v: "VisitPersistentHandle g s p (class_id h) = Some ?s1"
      using h c callback_drop_inner_eq [OF inv c(1) g]
      by (simp add: VisitPersistentHandle_def Persistent_Get_def)
    then have eq: "visit_handles g s (p # ps) = visit_handles g ?s1 ps"
      using h by simp
    from Cons.IH [OF cb_inv_finalize [OF inv c(1)] g] obtain s'
      where s': "visit_handles g ?s1 ps = Some s'"
      "cb_inv regs s'" "next_handle s' = next_handle ?s1"
      "\<forall>p h. handles s' p = Some h \<longrightarrow> handles ?s1 p = Some h"
      "\<forall>p \<in> set ps. \<forall>h. handles s' p = Some h \<longrightarrow> class_id h = 0"
      "\<exists>rest. finalized s' = finalized ?s1 @ rest" by blast
    have gone: "handles s' p = None"
    proof (cases "handles s' p")
      case (Some a)
      with s'(4) have "handles ?s1 p = Some a" by blast
      with c(2) show ?thesis by (simp add: finalize_fields)
    qed simp
    have mono: "\<forall>q h. handles s' q = Some h \<longrightarrow> handles s q = Some h"
    proof (intro allI impI)
      fix q a assume "handles s' q = Some a"
      with s'(4) have "handles ?s1 q = Some a" by blast
      then show "handles s q = Some a" by (simp add: finalize_fields split: if_splits)
    qed
    from s'(6) have "\<exists>rest. finalized s' = finalized s @ rest"
      by (auto simp: finalize_fields)
    with s' gone mono eq show ?thesis by (auto simp: finalize_fields)
  qed
qed

lemma mset_map_nth:
  assumes "distinct xs" "set xs = {..<length ys}"
  shows "mset (map (nth ys) xs) = mset ys"
proof -
  from assms have "mset xs = mset [0..<length ys]"
    by (metis atLeast_upt distinct_upt set_eq_iff_mset_eq_distinct)
  then have "mset (map (nth ys) xs) = mset (map (nth ys) [0..<length ys])"
    by (metis mset_map)
  then show ?thesis by (simp add: map_nth)
qed

text \<open>The sweep of \<^verbatim>\<open>mv8_interface_drop\<close> after any lifetime.\<close>

lemma lifetime_finalization:
  assumes "main_callback_drop_func g \<noteq> None" "run g mv8_interface_new events = Some s"
  shows "\<exists>s'. mv8_interface_drop g s = Some s' \<and>
           distinct (finalized s') \<and>
           set (finalized s') = {..<length (registered events)} \<and>
           (\<forall>c < length (registered events). count_list (finalized s') c = 1) \<and>
           next_callback s' = length (registered events) \<and>
           (\<forall>c. callbacks s' c = None) \<and>
           (\<forall>p h. handles s' p = Some h \<longrightarrow> class_id h = 0 \<and> weak_parameter h = None) \<and>
           mset (drop_calls s') = mset (registered events) \<and>
           (\<exists>swept. finalized s' = finalized s @ swept) \<and>
           ((\<forall>e \<in> set events. \<not> is_Collect e) \<longrightarrow> finalized s = [])"
proof -
  let ?regs = "registered events"
  from run_inv [OF cb_inv_initial assms] have inv: "cb_inv ?regs s"
    and nocollect: "(\<forall>e \<in> set events. \<not> is_Collect e) \<longrightarrow> finalized s = []"
    by (simp_all add: mv8_interface_new_def)
  from visit_handles_inv [OF inv assms(1), of "[0..<next_handle s]"] obtain s1
    where s1: "visit_handles g s [0..<next_handle s] = Some s1" "cb_inv ?regs s1"
      "next_handle s1 = next_handle s"
      "\<forall>p \<in> set [0..<next_handle s]. \<forall>h. handles s1 p = Some h \<longrightarrow> class_id h = 0"
      "\<exists>rest. finalized s1 = finalized s @ rest" by blast
  have none: "callbacks s1 c = None" for c
  proof (cases "callbacks s1 c")
    case (Some r)
    from cb_inv_record(3) [OF s1(2) Some] obtain h where h: "handles s1 (value_ptr r) = Some h"
      "class_id h = RUST_CALLBACK_CLASS_ID" by blast
    from s1(2) h(1) have "value_ptr r < next_handle s1" by (auto simp: cb_inv_def)
    with s1(3,4) h(1) have "class_id h = 0" by auto
    with h(2) RUST_CALLBACK_CLASS_ID_nonzero show ?thesis by simp
  qed simp
  from s1(2) none have d: "distinct (finalized s1)"
    and f: "set (finalized s1) = {..<length ?regs}"
    and n: "next_callback s1 = length ?regs"
    and dc: "drop_calls s1 = map (nth ?regs) (finalized s1)"
    by (auto simp: cb_inv_def)
  from dc mset_map_nth [OF d f] have m: "mset (drop_calls s1) = mset ?regs" by simp
  from d f have once: "\<forall>c < length ?regs. count_list (finalized s1) c = 1"
    by (simp add: count_list_distinct)
  have strong: "class_id h = 0 \<and> weak_parameter h = None" if "handles s1 p = Some h" for p h
  proof -
    from s1(2) that have "p < next_handle s1" by (auto simp: cb_inv_def)
    with s1(3,4) that have c0: "class_id h = 0" by auto
    have "weak_parameter h = None"
    proof (cases "weak_parameter h")
      case (Some c)
      with cb_inv_handle [OF s1(2) that] obtain c' r where "callbacks s1 c' = Some r" by auto
      with none show ?thesis by simp
    qed simp
    with c0 show ?thesis by simp
  qed
  let ?s' = "s1\<lparr>disposed := True\<rparr>"
  have "mv8_interface_drop g s = Some ?s'"
    using s1(1) by (simp add: mv8_interface_drop_def VisitHandlesWithClassIds_def)
  with d f n none m s1(5) nocollect once strong show ?thesis by simp
qed

lemma collect_eq:
  "handles s p = Some h \<Longrightarrow> weak_parameter h = Some c \<Longrightarrow> callbacks s c = Some r \<Longrightarrow>
   handles s (value_ptr r) \<noteq> None \<Longrightarrow> main_callback_drop_func g \<noteq> None \<Longrightarrow>
   weak_collection g s p = Some (finalize s c r)"
  by (auto simp: weak_collection_def callback_drop_def callback_drop_inner_def ClearWeak_def
      Reset_delete_def finalize_def Let_def AdjustAmountOfExternalAllocatedMemory_def)

lemma example_run:
  "\<exists>s. run example_globals mv8_interface_new example_events = Some s \<and> finalized s = [0]"
proof -
  let ?g = example_globals
  let ?s1 = "created mv8_interface_new 0 7 16"
  let ?s2 = "created ?s1 0 8 4"
  let ?s3 = "snd (new_Persistent ?s2 (JsObject 9))"
  let ?r = "\<lparr>func = 7, func_size = 16, interface = 0, value_ptr = Suc 0\<rparr>"
  let ?s4 = "finalize ?s3 0 ?r"
  have g: "main_callback_drop_func ?g \<noteq> None"
    by (simp add: example_globals_def mv8_init_def)
  have h3: "handles ?s3 (Suc 0) =
      Some \<lparr>referent = JsFunction 0, class_id = RUST_CALLBACK_CLASS_ID, weak_parameter = Some 0\<rparr>"
    by (simp add: created_def new_Persistent_def mv8_interface_new_def)
  have c3: "callbacks ?s3 0 = Some ?r"
    by (simp add: created_def new_Persistent_def mv8_interface_new_def)
  have 4: "weak_collection ?g ?s3 (Suc 0) = Some ?s4"
    by (rule collect_eq [OF h3 _ c3 _ g]) (simp_all add: h3)
  have h4: "handles ?s4 0 = Some \<lparr>referent = JsFunction 0, class_id = 0, weak_parameter = None\<rparr>"
    by (simp add: finalize_def created_def new_Persistent_def mv8_interface_new_def)
  have f4: "finalized ?s4 = [0]"
    by (simp add: finalize_def created_def new_Persistent_def mv8_interface_new_def)
  have 5: "\<exists>s. step ?g ?s4 (Release 0) = Some s \<and> finalized s = [0]"
    using h4 f4 by (simp add: mv8_value_ptr_drop_def Reset_delete_def)
  have "run ?g mv8_interface_new example_events =
      run ?g ?s4 [Release 0]"
    unfolding example_events_def using 4
    by (simp add: mv8_function_create_eq)
  with 5 show ?thesis by auto
qed

section \<open>External memory over a lifetime\<close>

lemma sum_charge_update:
  fixes f :: "nat \<Rightarrow> 64 word"
  assumes "c < n"
  shows "(\<Sum>i<n. (f(c := v)) i) = (\<Sum>i<n. f i) - f c + v"
proof -
  have "(\<Sum>i<n. (f(c := v)) i) = (f(c := v)) c + (\<Sum>i\<in>{..<n} - {c}. (f(c := v)) i)"
    using assms by (intro sum.remove) auto
  also have "(\<Sum>i\<in>{..<n} - {c}. (f(c := v)) i) = (\<Sum>i\<in>{..<n} - {c}. f i)"
    by (intro sum.cong) auto
  also have "(\<Sum>i<n. f i) = f c + (\<Sum>i\<in>{..<n} - {c}. f i)"
    using assms by (intro sum.remove) auto
  then have "(\<Sum>i\<in>{..<n} - {c}. f i) = (\<Sum>i<n. f i) - f c" by simp
  finally show ?thesis by simp
qed

lemma mem_inv_initial: "mem_inv mv8_interface_new"
  by (simp add: mem_inv_def mv8_interface_new_def)

lemma mem_inv_created:
  assumes "mem_inv s" "cb_inv regs s"
  shows "mem_inv (created s i f sz)"
proof -
  let ?s = "created s i f sz"
  have "charge ?s c = charge s c" if "c < next_callback s" for c
    using that by (simp add: charge_def created_def)
  then have "(\<Sum>c<next_callback s. charge ?s c) = (\<Sum>c<next_callback s. charge s c)"
    by (intro sum.cong) auto
  moreover have "charge ?s (next_callback s) = callback_size sz"
    by (simp add: charge_def created_def)
  moreover have "next_callback ?s = Suc (next_callback s)"
    "external_memory ?s = external_memory s + callback_size sz"
    by (simp_all add: created_def)
  ultimately show ?thesis using assms(1) by (simp add: mem_inv_def)
qed

lemma mem_inv_finalize:
  assumes "mem_inv s" "cb_inv regs s" "callbacks s c = Some r"
  shows "mem_inv (finalize s c r)"
proof -
  let ?s = "finalize s c r"
  from cb_inv_record(1) [OF assms(2,3)] assms(2) have c: "c < next_callback s"
    by (simp add: cb_inv_def)
  have "charge ?s = (charge s)(c := 0)"
    by (auto simp: charge_def finalize_def fun_eq_iff)
  with sum_charge_update [OF c, of "charge s" 0]
  have "(\<Sum>i<next_callback s. charge ?s i) = (\<Sum>i<next_callback s. charge s i) - charge s c"
    by simp
  moreover have "charge s c = callback_size (func_size r)"
    using assms(3) by (simp add: charge_def)
  moreover have "next_callback ?s = next_callback s"
    "external_memory ?s = external_memory s - callback_size (func_size r)"
    by (simp_all add: finalize_def)
  ultimately show ?thesis using assms(1) by (simp add: mem_inv_def)
qed

lemma mem_inv_cong:
  assumes "mem_inv s" "callbacks s' = callbacks s" "next_callback s' = next_callback s"
    "external_memory s' = external_memory s"
  shows "mem_inv s'"
proof -
  from assms(2) have "charge s' = charge s" by (simp add: charge_def fun_eq_iff)
  with assms show ?thesis by (simp add: mem_inv_def)
qed

lemma step_mem_inv:
  assumes inv: "cb_inv regs s" and m: "mem_inv s" and g: "main_callback_drop_func g \<noteq> None"
    and st: "step g s e = Some s'"
  shows "mem_inv s'"
proof (cases e)
  case (Register i f sz)
  with st mem_inv_created [OF m inv, of i f sz] show ?thesis
    by (simp add: mv8_function_create_eq)
next
  case (Collect p)
  show ?thesis
  proof (cases "\<exists>h c. handles s p = Some h \<and> weak_parameter h = Some c")
    case False
    with st Collect have "s' = s"
      by (auto simp: weak_collection_def split: option.splits)
    with m show ?thesis by simp
  next
    case True
    then obtain h c where h: "handles s p = Some h" "weak_parameter h = Some c" by blast
    with cb_inv_handle [OF inv h(1)] obtain r where r: "callbacks s c = Some r" by auto
    from callback_drop_inner_eq [OF inv r g] h st Collect have "s' = finalize s c r"
      by (simp add: weak_collection_def callback_drop_def)
    with mem_inv_finalize [OF m inv r] show ?thesis by simp
  qed
next
  case (Acquire v)
  with st have "s' = snd (new_Persistent s v)" by simp
  then show ?thesis by (intro mem_inv_cong [OF m]) (simp_all add: new_Persistent_def)
next
  case (Release p)
  with st have "\<exists>h. s' = s\<lparr>handles := (handles s)(p := None), released := released s @ [p]\<rparr>"
    by (auto simp: mv8_value_ptr_drop_def Reset_delete_def split: option.splits if_splits)
  then show ?thesis by (auto intro!: mem_inv_cong [OF m])
qed

lemma run_mem_inv:
  assumes "cb_inv regs s" "mem_inv s" "main_callback_drop_func g \<noteq> None" "run g s es = Some s'"
  shows "mem_inv s'"
  using assms
proof (induction es arbitrary: regs s)
  case Nil
  then show ?case by simp
next
  case (Cons e es)
  from Cons.prems(4) obtain s1 where s1: "step g s e = Some s1" and r: "run g s1 es = Some s'"
    by (auto split: option.splits)
  from Cons.IH [OF step_inv(1) [OF Cons.prems(1,3) s1]
      step_mem_inv [OF Cons.prems(1,2,3) s1] Cons.prems(3) r]
  show ?case .
qed

lemma visit_handles_mem_inv:
  assumes "cb_inv regs s" "mem_inv s" "main_callback_drop_func g \<noteq> None"
    "visit_handles g s ps = Some s'"
  shows "mem_inv s'"
  using assms
proof (induction ps arbitrary: s)
  case Nil
  then show ?case by simp
next
  case (Cons p ps)
  note inv = Cons.prems(1) and m = Cons.prems(2) and g = Cons.prems(3)
  show ?case
  proof (cases "\<exists>h. handles s p = Some h \<and> class_id h \<noteq> 0")
    case False
    then have "visit_handles g s (p # ps) = visit_handles g s ps"
      by (cases "handles s p") auto
    with Cons.IH [OF inv m g] Cons.prems(4) show ?thesis by simp
  next
    case True
    then obtain h where h: "handles s p = Some h" "class_id h \<noteq> 0" by blast
    from cb_inv_handle [OF inv h(1)] h(2) obtain c r where c: "callbacks s c = Some r"
      "value_ptr r = p" "class_id h = RUST_CALLBACK_CLASS_ID" "GetPrivate s (referent h) = Some c"
      by blast
    have "VisitPersistentHandle g s p (class_id h) = Some (finalize s c r)"
      using h c callback_drop_inner_eq [OF inv c(1) g]
      by (simp add: VisitPersistentHandle_def Persistent_Get_def)
    with h Cons.prems(4) have "visit_handles g (finalize s c r) ps = Some s'" by simp
    from Cons.IH [OF cb_inv_finalize [OF inv c(1)] mem_inv_finalize [OF m inv c(1)] g this]
    show ?thesis .
  qed
qed

text \<open>
  Over a whole lifetime the charges and the debits cancel: after the drop of the
  interface the accounting is back at its initial value.
\<close>

lemma lifetime_external_memory:
  assumes "main_callback_drop_func g \<noteq> None" "run g mv8_interface_new events = Some s"
    "mv8_interface_drop g s = Some s'"
  shows "external_memory s' = 0"
proof -
  from run_inv [OF cb_inv_initial assms(1,2)] have inv: "cb_inv (registered events) s" by simp
  from run_mem_inv [OF cb_inv_initial mem_inv_initial assms(1,2)] have m: "mem_inv s" .
  from assms(3) obtain s1 where s1: "visit_handles g s [0..<next_handle s] = Some s1"
    and s': "s' = s1\<lparr>disposed := True\<rparr>"
    by (auto simp: mv8_interface_drop_def VisitHandlesWithClassIds_def split: option.splits)
  from visit_handles_mem_inv [OF inv m assms(1) s1] have m1: "mem_inv s1" .
  from lifetime_finalization [OF assms(1,2)] assms(3) have "\<forall>c. callbacks s' c = None"
    by auto
  with s' have "charge s1 c = 0" for c by (simp add: charge_def)
  with m1 s' show ?thesis by (simp add: mem_inv_def)
qed

section \<open>Exactly-once finalization\<close>

text \<open>
  Claim C1. Let closures be registered at a new isolate, collections fire and the host
  acquire and release handles, in any order, with the drop dispatcher installed; then
  let the interface be dropped. The drop succeeds, and after it every registered
  record was finalized exactly once: the log of finalized records has no duplicate and
  holds every record ever allocated, no record is left, and the drop dispatcher was
  called on exactly the registered closure pointers, each as often as it was
  registered. No handle with a class id or a weak callback is left, and the
  external-memory accounting is back at its initial value. The records finalized by a
  collection before the drop keep their single entry (the sweep only appends to the
  log), and when no collection fired, all records are finalized by the sweep.
\<close>

theorem exactly_once_finalization:
  assumes "main_callback_drop_func g \<noteq> None" "run g mv8_interface_new events = Some s"
  shows "\<exists>s'. mv8_interface_drop g s = Some s' \<and>
           distinct (finalized s') \<and>
           set (finalized s') = {..<length (registered events)} \<and>
           (\<forall>c < length (registered events). count_list (finalized s') c = 1) \<and>
           next_callback s' = length (registered events) \<and>
           (\<forall>c. callbacks s' c = None) \<and>
           (\<forall>p h. handles s' p = Some h \<longrightarrow> class_id h = 0 \<and> weak_parameter h = None) \<and>
           mset (drop_calls s') = mset (registered events) \<and>
           external_memory s' = 0 \<and>
           (\<exists>swept. finalized s' = finalized s @ swept) \<and>
           ((\<forall>e \<in> set events. \<not> is_Collect e) \<longrightarrow> finalized s = [])"
proof -
  from lifetime_finalization [OF assms] obtain s' where s': "mv8_interface_drop g s = Some s'"
    and rest: "distinct (finalized s') \<and>
           set (finalized s') = {..<length (registered events)} \<and>
           (\<forall>c < length (registered events). count_list (finalized s') c = 1) \<and>
           next_callback s' = length (registered events) \<and>
           (\<forall>c. callbacks s' c = None) \<and>
           (\<forall>p h. handles s' p = Some h \<longrightarrow> class_id h = 0 \<and> weak_parameter h = None) \<and>
           mset (drop_calls s') = mset (registered events) \<and>
           (\<exists>swept. finalized s' = finalized s @ swept) \<and>
           ((\<forall>e \<in> set events. \<not> is_Collect e) \<longrightarrow> finalized s = [])"
    by blast
  from lifetime_external_memory [OF assms s'] have "external_memory s' = 0" .
  with s' rest show ?thesis by blast
qed

text \<open>
  The example lifetime: the first record is finalized by the collection; after the
  drop of the interface both records are finalized, each once.
\<close>

theorem exactly_once_finalization_witness:
  "main_callback_drop_func example_globals \<noteq> None \<and>
   (\<exists>s. run example_globals mv8_interface_new example_events = Some s \<and> finalized s = [0] \<and>
      (\<exists>s' swept. mv8_interface_drop example_globals s = Some s' \<and>
         finalized s' = 0 # swept \<and> distinct (finalized s') \<and>
         set (finalized s') = {..<length [7::nat, 8]} \<and>
         mset (drop_calls s') = mset [7, 8]))"
proof -
  have g: "main_callback_drop_func example_globals \<noteq> None"
    by (simp add: example_globals_def mv8_init_def)
  from example_run obtain s
    where s: "run example_globals mv8_interface_new example_events = Some s" "finalized s = [0]"
    by blast
  have regs: "registered example_events = [7, 8]" by (simp add: example_events_def)
  from exactly_once_finalization [OF g s(1)] obtain s' swept
    where s': "mv8_interface_drop example_globals s = Some s'" "distinct (finalized s')"
      "set (finalized s') = {..<length (registered example_events)}"
      "mset (drop_calls s') = mset (registered example_events)"
      "finalized s' = finalized s @ swept"
    by (elim exE conjE) (rule that; assumption)
  from s'(5) s(2) have f: "finalized s' = 0 # swept" by simp
  from s'(3) have st: "set (finalized s') = {..<length [7::nat, 8]}" by (simp only: regs)
  from s'(4) have m: "mset (drop_calls s') = mset [7, 8]" by (simp only: regs)
  from s'(1) f s'(2) st m have "\<exists>s' swept. mv8_interface_drop example_globals s = Some s' \<and>
         finalized s' = 0 # swept \<and> distinct (finalized s') \<and>
         set (finalized s') = {..<length [7::nat, 8]} \<and>
         mset (drop_calls s') = mset [7, 8]"
    by blast
  with s g show ?thesis by blast
qed

section \<open>Key enumeration\<close>

text \<open>
  What the bridge itself does in \<^verbatim>\<open>mv8_object_keys\<close>: it asks the engine for the own
  property names, or with \<open>include_inherited\<close> nonzero for the property names including
  those of the prototypes, and wraps the array the engine returns in an Array
  descriptor with a new strong handle. Which keys the engine puts in the array, and
  in which order, is the engine's matter.
\<close>

lemma mv8_object_keys_result:
  assumes "Persistent_Get s object = Some local_object"
    and "(if include_inherited \<noteq> 0 then Object_GetPropertyNames E local_object
          else Object_GetOwnPropertyNames E local_object) = Completed keys"
  shows "mv8_object_keys E s object include_inherited =
           Some (\<lparr>value_desc = \<lparr>payload = payload_value_ptr (next_handle s), tag = tag_value Array\<rparr>,
                  is_exception = 0\<rparr>,
                 s\<lparr>handles := (handles s)(next_handle s \<mapsto>
                       \<lparr>referent = keys, class_id = 0, weak_parameter = None\<rparr>),
                   next_handle := Suc (next_handle s)\<rparr>)"
  using assms
  by (simp add: mv8_object_keys_def new_Persistent_def try_catch_ok_val_def)

section \<open>Evaluation of a throwing script\<close>

text \<open>
  The script \<^verbatim>\<open>throw 42\<close>, on an engine that runs it as the language prescribes: the
  Outcome is an exception and carries the number 42 itself, not an error object.
\<close>

lemma eval_throw_42:
  "\<exists>s'. mv8_interface_eval (throwing_engine throw_42) mv8_interface_new ''throw 42'' 8 None 0 0 =
     Some (\<lparr>value_desc = \<lparr>payload = payload_number (Int32Double 42), tag = tag_value Number\<rparr>,
            is_exception = 1\<rparr>, s')"
  by (simp add: mv8_interface_eval_def string_new_def throwing_engine_def throw_42_def
      try_catch_err_def print_diagnostics_def value_to_desc_simps)

end
